theory Spec2Isabelle
  imports Main
begin

section \<open>ARION 1.0 reference implementation (js/src/arion.js)\<close>

text \<open>
  A shallow embedding of the JavaScript codec: \<open>loadsArion\<close> (text to value tree) and
  \<open>dumpsArion\<close> (value tree to text), with every helper the two close over.

  A JavaScript string is a sequence of UTF-16 code units. It is modelled as a \<open>string\<close>;
  one \<open>char\<close> stands for one code unit below 256. An exception raised by \<open>throw\<close> is the
  \<open>Inl\<close> branch of a sum.
\<close>

subsection \<open>Host string operations\<close>

text \<open>
  \<open>String.prototype.trim\<close> removes white space and line terminators from both ends. Of the
  code units below 256 these are TAB, LF, VT, FF, CR, SPACE and NBSP.
\<close>

definition isWhite :: "char \<Rightarrow> bool" where
  "isWhite c \<longleftrightarrow> c \<in> set [CHR 0x09, CHR 0x0A, CHR 0x0B, CHR 0x0C, CHR 0x0D, CHR 0x20, CHR 0xA0]"

definition trim :: "string \<Rightarrow> string" where
  "trim s = rev (dropWhile isWhite (rev (dropWhile isWhite s)))"

definition startsWith :: "string \<Rightarrow> string \<Rightarrow> bool" where
  "startsWith s p \<longleftrightarrow> take (length p) s = p"

text \<open>\<open>s.indexOf(" ")\<close>: the position of the first space, \<open>None\<close> for JavaScript's \<open>-1\<close>.\<close>

fun indexOf :: "string \<Rightarrow> char \<Rightarrow> nat option" where
  "indexOf [] c = None"
| "indexOf (x # xs) c = (if x = c then Some 0 else map_option Suc (indexOf xs c))"

text \<open>\<open>" ".repeat(n)\<close>.\<close>

definition spaces :: "nat \<Rightarrow> string" where
  "spaces n = replicate n (CHR '' '')"

text \<open>\<open>xs.join("\n")\<close>.\<close>

fun joinNL :: "string list \<Rightarrow> string" where
  "joinNL [] = []"
| "joinNL [l] = l"
| "joinNL (l # m # ls) = l @ CHR 0x0A # joinNL (m # ls)"

text \<open>\<open>s.split("\n")\<close>: always at least one segment.\<close>

fun splitNL :: "string \<Rightarrow> string list" where
  "splitNL [] = [[]]"
| "splitNL (c # cs) =
     (if c = CHR 0x0A then [] # splitNL cs
      else (case splitNL cs of l # ls \<Rightarrow> (c # l) # ls | [] \<Rightarrow> [[c]]))"

text \<open>
  \<open>text.split(/\r?\n/)\<close>: the scan tries the pattern at each position in turn, so a
  CR directly before an LF belongs to the separator, and any other CR is content.
\<close>

fun splitLines :: "string \<Rightarrow> string list" where
  "splitLines [] = [[]]"
| "splitLines [c] = (if c = CHR 0x0A then [[], []] else [[c]])"
| "splitLines (c # d # ds) =
     (if c = CHR 0x0A then [] # splitLines (d # ds)
      else if c = CHR 0x0D \<and> d = CHR 0x0A then [] # splitLines ds
      else (case splitLines (d # ds) of l # ls \<Rightarrow> (c # l) # ls | [] \<Rightarrow> [[c]]))"

subsection \<open>Host JSON number grammar\<close>

text \<open>
  \<open>isNumberLike(s)\<close> asks whether \<open>JSON.parse(s)\<close> returns a number. \<open>JSON.parse\<close>
  is a host function; it accepts a JSON number literal
  \<^verbatim>\<open>-? (0 | [1-9][0-9]*) (. [0-9]+)? ([eE] [+-]? [0-9]+)?\<close>
  with JSON white space (TAB, LF, CR, SPACE) around it, and throws on any other text that
  is not another JSON value. The recogniser below follows that grammar.
\<close>

definition isDigit :: "char \<Rightarrow> bool" where
  "isDigit c \<longleftrightarrow> c \<in> set ''0123456789''"

definition digits1 :: "string \<Rightarrow> bool" where
  "digits1 s \<longleftrightarrow> s \<noteq> [] \<and> list_all isDigit s"

definition jsonExp :: "string \<Rightarrow> bool" where
  "jsonExp s =
     (case s of
        [] \<Rightarrow> True
      | c # r \<Rightarrow> (c = CHR ''e'' \<or> c = CHR ''E'') \<and>
          (case r of
             [] \<Rightarrow> False
           | d # r' \<Rightarrow> if d = CHR ''+'' \<or> d = CHR ''-'' then digits1 r' else digits1 r))"

definition jsonFrac :: "string \<Rightarrow> bool" where
  "jsonFrac s =
     (case s of
        [] \<Rightarrow> True
      | c # r \<Rightarrow> if c = CHR ''.''
          then takeWhile isDigit r \<noteq> [] \<and> jsonExp (dropWhile isDigit r)
          else jsonExp s)"

definition jsonInt :: "string \<Rightarrow> bool" where
  "jsonInt s =
     (case s of
        [] \<Rightarrow> False
      | c # r \<Rightarrow> if c = CHR ''0'' then jsonFrac r
          else if isDigit c then jsonFrac (dropWhile isDigit r)
          else False)"

definition numericLiteral :: "string \<Rightarrow> bool" where
  "numericLiteral s =
     (case s of
        [] \<Rightarrow> False
      | c # r \<Rightarrow> if c = CHR ''-'' then jsonInt r else jsonInt s)"

definition isJsonWhite :: "char \<Rightarrow> bool" where
  "isJsonWhite c \<longleftrightarrow> c \<in> set [CHR 0x09, CHR 0x0A, CHR 0x0D, CHR 0x20]"

definition isNumberLike :: "string \<Rightarrow> bool" where
  "isNumberLike s =
     numericLiteral (rev (dropWhile isJsonWhite (rev (dropWhile isJsonWhite s))))"

subsection \<open>Values\<close>

text \<open>
  The value tree. The payload \<open>'n\<close> of \<open>Number\<close> is the host's number type (an IEEE double
  in JavaScript); the codec only ever creates one with \<open>JSON.parse\<close> and prints one with
  \<open>JSON.stringify\<close>, which the functions below take as the parameters \<open>numOf\<close> and
  \<open>numStr\<close>.

  An \<open>Object\<close> lists its own enumerable properties in the order \<open>Object.keys\<close> and
  \<open>Object.entries\<close> report them.
\<close>

datatype 'n Value =
    Null
  | Boolean bool
  | Number 'n
  | String string
  | Object "(string \<times> 'n Value) list"
  | Array "'n Value list"

subsection \<open>Scalar resolver\<close>

definition parseScalar :: "(string \<Rightarrow> 'n) \<Rightarrow> string \<Rightarrow> 'n Value" where
  "parseScalar numOf raw =
     (let s = trim raw in
      if s = [] then String []
      else if startsWith s [CHR 0x27] then String (drop 1 s)
      else if s = ''true'' then Boolean True
      else if s = ''false'' then Boolean False
      else if s = ''null'' then Null
      else if isNumberLike s then Number (numOf s)
      else String s)"

subsection \<open>Tokenizer\<close>

fun tokenizeLoop :: "string list \<Rightarrow> (nat \<times> string) list" where
  "tokenizeLoop [] = []"
| "tokenizeLoop (line # rest) =
     (if trim line = [] then tokenizeLoop rest
      else
        (let stripped = dropWhile (\<lambda>c. c = CHR '' '') line;
             indent = length line - length stripped
         in if startsWith stripped ''!ARION'' then tokenizeLoop rest
            else if startsWith stripped ''#'' then tokenizeLoop rest
            else (indent, stripped) # tokenizeLoop rest))"

definition tokenizeLines :: "string \<Rightarrow> (nat \<times> string) list" where
  "tokenizeLines text = tokenizeLoop (splitLines text)"

subsection \<open>Plain objects\<close>

text \<open>
  The parser builds each object with \<open>obj[key] = value\<close> on an object created by \<open>{}\<close>
  and asks \<open>Object.keys(obj).length\<close>. JavaScript orders the own keys of an object with
  the array indices first (canonical decimal strings below \<open>2^32 - 1\<close>), in ascending
  numeric order, and the other strings after them in the order of their creation.
  Assigning to a key that exists keeps its place.

  \<open>Object.prototype\<close> holds the accessor \<open>__proto__\<close>. While an object has no own key
  of that name and finds the accessor along its prototype chain, assigning to
  \<open>__proto__\<close> runs the setter and creates no own key: \<open>null\<close> or an object becomes the
  new prototype, any other value is ignored. Once the chain no longer leads to the
  accessor (the prototype is \<open>null\<close>, or an object whose own chain does not lead there),
  the assignment creates an own key like any other.

  An object under construction is the pair of its own properties and the flag that says
  the accessor is in reach. The flag of a finished object or array goes with it where the
  parser hands the value on (\<open>reach\<close> below); an array always has the accessor in reach.
\<close>

definition decimal :: "string \<Rightarrow> nat" where
  "decimal s = foldl (\<lambda>n c. 10 * n + (of_char c - 48)) 0 s"

definition isArrayIndex :: "string \<Rightarrow> bool" where
  "isArrayIndex k \<longleftrightarrow>
     digits1 k \<and> (k = ''0'' \<or> \<not> startsWith k ''0'') \<and> decimal k < 4294967295"

fun insertIndex :: "string \<Rightarrow> 'v \<Rightarrow> (string \<times> 'v) list \<Rightarrow> (string \<times> 'v) list" where
  "insertIndex k v [] = [(k, v)]"
| "insertIndex k v ((k', v') # rest) =
     (if isArrayIndex k' \<and> decimal k' < decimal k then (k', v') # insertIndex k v rest
      else (k, v) # (k', v') # rest)"

type_synonym 'n jsobject = "(string \<times> 'n Value) list \<times> bool"

definition objSet :: "'n jsobject \<Rightarrow> string \<Rightarrow> 'n Value \<Rightarrow> bool \<Rightarrow> 'n jsobject" where
  "objSet obj key v reach =
     (case obj of (own, setter) \<Rightarrow>
        if key \<in> set (map fst own)
          then (map (\<lambda>(k, x). if k = key then (k, v) else (k, x)) own, setter)
        else if key = ''__proto__'' \<and> setter
          then (own, case v of Null \<Rightarrow> False | Object entries \<Rightarrow> reach | Array items \<Rightarrow> reach
                       | _ \<Rightarrow> True)
        else if isArrayIndex key then (insertIndex key v own, setter)
        else (own @ [(key, v)], setter))"

subsection \<open>Structural parser\<close>

text \<open>
  The two \<open>throw\<close> statements of \<open>parseBlock\<close>. The message of the first interpolates
  the indent and the stripped content of the line.
\<close>

datatype error = InvalidLine nat string | MixedContainer

fun showNat :: "nat \<Rightarrow> string" where
  "showNat n =
     (if n < 10 then [''0123456789'' ! n]
      else showNat (n div 10) @ [''0123456789'' ! (n mod 10)])"

declare showNat.simps [simp del]

fun message :: "error \<Rightarrow> string" where
  "message (InvalidLine indent stripped) =
     ''Invalid ARION line at indent '' @ showNat indent @ '': '' @ stripped"
| "message MixedContainer = ''Mixed object and array at the same level is not allowed''"

definition structural :: "string \<Rightarrow> bool" where
  "structural s \<longleftrightarrow> startsWith s ''.'' \<or> startsWith s ''-''"

text \<open>The inner \<open>while\<close> loop that gathers the lines of a multiline string.\<close>

function collect :: "(nat \<times> string) list \<Rightarrow> nat \<Rightarrow> nat \<Rightarrow> string list \<Rightarrow> nat \<times> string list" where
  "collect lines j childIndent multiline =
     (if j < length lines then
        (case lines ! j of (ci, cs) \<Rightarrow>
           if ci < childIndent then (j, multiline)
           else if ci = childIndent \<and> \<not> structural cs
             then collect lines (j + 1) childIndent (multiline @ [cs])
           else (j, multiline))
      else (j, multiline))"
  by pat_completeness auto
termination
  by (relation "measure (\<lambda>(lines, j, childIndent, multiline). length lines - j)") auto

declare collect.simps [simp del]

text \<open>
  The end of \<open>parseBlock\<close>: what the block returns once its loop has left, from the index
  reached, the object and the array accumulator (\<open>None\<close> for \<open>null\<close>), with the flag of the
  value returned. An error thrown inside the loop passes through.
\<close>

fun finish ::
  "error + (nat \<times> 'n jsobject \<times> 'n Value list option) \<Rightarrow> error + (nat \<times> 'n Value \<times> bool)"
where
  "finish (Inl e) = Inl e"
| "finish (Inr (index, (own, setter), Some arr)) =
     (if own = [] then Inr (index, Array arr, True) else Inl MixedContainer)"
| "finish (Inr (index, (own, setter), None)) = Inr (index, Object own, setter)"

text \<open>\<open>if (arr === null) arr = []; arr.push(v)\<close>.\<close>

definition push :: "'v list option \<Rightarrow> 'v \<Rightarrow> 'v list option" where
  "push arr v = Some ((case arr of None \<Rightarrow> [] | Some a \<Rightarrow> a) @ [v])"

text \<open>
  The main \<open>while\<close> loop of \<open>parseBlock\<close>, from the state \<open>(index, obj, arr)\<close> to the state
  at which it leaves, or to the error thrown. \<open>const obj = {}\<close> is \<open>([], True)\<close>. The nested
  call \<open>parseBlock(index + 1, indent + 1)\<close> is the loop started on fresh accumulators,
  followed by \<open>finish\<close>.
\<close>

function parseLoop ::
  "(string \<Rightarrow> 'n) \<Rightarrow> (nat \<times> string) list \<Rightarrow> nat \<Rightarrow> nat \<Rightarrow> 'n jsobject \<Rightarrow>
     'n Value list option \<Rightarrow> error + (nat \<times> 'n jsobject \<times> 'n Value list option)"
where
  "parseLoop numOf lines index currentIndent obj arr =
     (if index < length lines then
        (case lines ! index of (indent, stripped) \<Rightarrow>
           if indent < currentIndent then Inr (index, obj, arr)
           else if startsWith stripped ''.'' then
             (let content = drop 1 stripped in
              case indexOf content (CHR '' '') of
                Some spaceIdx \<Rightarrow>
                  parseLoop numOf lines (index + 1) currentIndent
                    (objSet obj (take spaceIdx content)
                       (parseScalar numOf (drop (spaceIdx + 1) content)) True) arr
              | None \<Rightarrow>
                  if index + 1 \<ge> length lines
                    then parseLoop numOf lines (index + 1) currentIndent
                           (objSet obj content (Object []) True) arr
                  else
                    (case lines ! (index + 1) of (nextIndent, nextStripped) \<Rightarrow>
                       if nextIndent \<le> indent
                         then parseLoop numOf lines (index + 1) currentIndent
                                (objSet obj content (Object []) True) arr
                       else if \<not> structural nextStripped then
                         (case collect lines (index + 1) nextIndent [] of (j, multiline) \<Rightarrow>
                            parseLoop numOf lines j currentIndent
                              (objSet obj content (String (joinNL multiline)) True) arr)
                       else
                         (case finish (parseLoop numOf lines (index + 1) (indent + 1) ([], True) None) of
                            Inl e \<Rightarrow> Inl e
                          | Inr (index', v, reach) \<Rightarrow>
                              parseLoop numOf lines index' currentIndent
                                (objSet obj content v reach) arr)))
           else if startsWith stripped ''-'' then
             (let tail = trim (drop 1 stripped) in
              if tail \<noteq> []
                then parseLoop numOf lines (index + 1) currentIndent obj
                       (push arr (parseScalar numOf tail))
              else if index + 1 \<ge> length lines
                then parseLoop numOf lines (index + 1) currentIndent obj (push arr (Object []))
              else
                (case lines ! (index + 1) of (nextIndent, nextStripped) \<Rightarrow>
                   if nextIndent \<le> indent
                     then parseLoop numOf lines (index + 1) currentIndent obj (push arr (Object []))
                   else
                     (case finish (parseLoop numOf lines (index + 1) (indent + 1) ([], True) None) of
                        Inl e \<Rightarrow> Inl e
                      | Inr (index', v, reach) \<Rightarrow>
                          parseLoop numOf lines index' currentIndent obj (push arr v))))
           else Inl (InvalidLine indent stripped))
      else Inr (index, obj, arr))"
  by pat_completeness auto

text \<open>
  The loop terminates because every iteration moves the index forward: the inner loop and
  the nested block both return an index beyond the line that started them.
\<close>

lemma collect_ge: "collect lines j c m = (j', m') \<Longrightarrow> j \<le> j'"
proof (induction lines j c m rule: collect.induct)
  case (1 lines j childIndent multiline)
  show ?case
  proof (cases "j < length lines")
    case False
    with "1.prems" show ?thesis by (simp add: collect.simps)
  next
    case True
    note eq = "1.prems"[unfolded collect.simps[of lines j]]
    obtain ci cs where l: "lines ! j = (ci, cs)" by (cases "lines ! j")
    show ?thesis
    proof (cases "\<not> ci < childIndent \<and> ci = childIndent \<and> \<not> structural cs")
      case True
      with \<open>j < length lines\<close> l eq have "collect lines (j + 1) childIndent (multiline @ [cs]) = (j', m')"
        by simp
      with "1.IH"[OF \<open>j < length lines\<close> l[symmetric]] True have "j + 1 \<le> j'" by simp
      then show ?thesis by simp
    next
      case False
      with \<open>j < length lines\<close> l eq show ?thesis by (auto split: if_splits)
    qed
  qed
qed

lemma finish_index: "finish r = Inr (i, v, reach) \<Longrightarrow> \<exists>ob ar. r = Inr (i, ob, ar)"
  by (cases r rule: finish.cases) (auto split: if_splits)

lemma parseLoop_ge:
  "parseLoop_dom (numOf, lines, index, cur, obj, arr) \<Longrightarrow>
   parseLoop numOf lines index cur obj arr = Inr (i, ob, ar) \<Longrightarrow> index \<le> i"
proof (induction numOf lines index cur obj arr arbitrary: i ob ar rule: parseLoop.pinduct)
  case (1 numOf lines index currentIndent obj arr)
  note eq = "1.prems"[unfolded parseLoop.psimps[OF "1.hyps"]]
  show ?case
  proof (cases "index < length lines")
    case False
    with eq show ?thesis by simp
  next
    case lt: True
    obtain indent stripped where l: "(indent, stripped) = lines ! index"
      by (cases "lines ! index") simp
    show ?thesis
    proof (cases "indent < currentIndent")
      case True
      with eq lt l[symmetric] show ?thesis by simp
    next
      case ge: False
      show ?thesis
      proof (cases "startsWith stripped ''.''")
        case dot: True
        define content where "content = drop 1 stripped"
        show ?thesis
        proof (cases "indexOf content (CHR '' '')")
          case (Some sp)
          with eq lt l[symmetric] ge dot
          have "parseLoop numOf lines (index + 1) currentIndent
                  (objSet obj (take sp content) (parseScalar numOf (drop (sp + 1) content)) True) arr
                = Inr (i, ob, ar)"
            by (simp add: content_def)
          from "1.IH"(6)[OF lt l ge dot content_def Some this] show ?thesis by simp
        next
          case None
          show ?thesis
          proof (cases "length lines \<le> index + 1")
            case last: True
            with eq lt l[symmetric] ge dot None
            have "parseLoop numOf lines (index + 1) currentIndent (objSet obj content (Object []) True) arr
                  = Inr (i, ob, ar)"
              by (simp add: content_def)
            from "1.IH"(1)[OF lt l ge dot content_def None last this] show ?thesis by simp
          next
            case more: False
            obtain nextIndent nextStripped where n: "(nextIndent, nextStripped) = lines ! (index + 1)"
              by (cases "lines ! (index + 1)") simp
            show ?thesis
            proof (cases "nextIndent \<le> indent")
              case le: True
              with eq lt l[symmetric] ge dot None more n[symmetric]
              have "parseLoop numOf lines (index + 1) currentIndent (objSet obj content (Object []) True) arr
                    = Inr (i, ob, ar)"
                by (simp add: content_def)
              from "1.IH"(2)[OF lt l ge dot content_def None more n le this] show ?thesis by simp
            next
              case gt: False
              show ?thesis
              proof (cases "structural nextStripped")
                case ns: False
                obtain j multiline where c: "(j, multiline) = collect lines (index + 1) nextIndent []"
                  by (cases "collect lines (index + 1) nextIndent []") simp
                from eq lt l[symmetric] ge dot None more n[symmetric] gt ns c[symmetric]
                have "parseLoop numOf lines j currentIndent
                        (objSet obj content (String (joinNL multiline)) True) arr = Inr (i, ob, ar)"
                  by (simp add: content_def)
                from "1.IH"(3)[OF lt l ge dot content_def None more n gt ns c this]
                have "j \<le> i" .
                moreover from collect_ge[OF c[symmetric]] have "index + 1 \<le> j" .
                ultimately show ?thesis by simp
              next
                case st: True
                then have st': "\<not> \<not> structural nextStripped" by simp
                from eq lt l[symmetric] ge dot None more n[symmetric] gt st
                obtain b where f: "finish (parseLoop numOf lines (index + 1) (indent + 1) ([], True) None) = Inr b"
                  by (auto simp: content_def split: sum.splits)
                obtain index' vr where b: "(index', vr) = b" by (cases b) simp
                obtain v reach where vr: "(v, reach) = vr" by (cases vr) simp
                from eq lt l[symmetric] ge dot None more n[symmetric] gt st f b[symmetric] vr[symmetric]
                have "parseLoop numOf lines index' currentIndent (objSet obj content v reach) arr
                      = Inr (i, ob, ar)"
                  by (simp add: content_def)
                from "1.IH"(5)[OF lt l ge dot content_def None more n gt st' f b vr this]
                have "index' \<le> i" .
                moreover from f b vr finish_index obtain ob' ar' where
                  "parseLoop numOf lines (index + 1) (indent + 1) ([], True) None = Inr (index', ob', ar')"
                  by metis
                from "1.IH"(4)[OF lt l ge dot content_def None more n gt st' this]
                have "index + 1 \<le> index'" .
                ultimately show ?thesis by simp
              qed
            qed
          qed
        qed
      next
        case nodot: False
        show ?thesis
        proof (cases "startsWith stripped ''-''")
          case False
          with eq lt l[symmetric] ge nodot show ?thesis by simp
        next
          case dash: True
          define tail where "tail = trim (drop 1 stripped)"
          show ?thesis
          proof (cases "tail \<noteq> []")
            case inline: True
            with eq lt l[symmetric] ge nodot dash
            have "parseLoop numOf lines (index + 1) currentIndent obj
                    (push arr (parseScalar numOf tail)) = Inr (i, ob, ar)"
              by (simp add: tail_def)
            from "1.IH"(7)[OF lt l ge nodot dash tail_def inline this] show ?thesis by simp
          next
            case bare: False
            show ?thesis
            proof (cases "length lines \<le> index + 1")
              case last: True
              with eq lt l[symmetric] ge nodot dash bare
              have "parseLoop numOf lines (index + 1) currentIndent obj (push arr (Object []))
                    = Inr (i, ob, ar)"
                by (simp add: tail_def)
              from "1.IH"(8)[OF lt l ge nodot dash tail_def bare last this] show ?thesis by simp
            next
              case more: False
              obtain nextIndent nextStripped where n: "(nextIndent, nextStripped) = lines ! (index + 1)"
                by (cases "lines ! (index + 1)") simp
              show ?thesis
              proof (cases "nextIndent \<le> indent")
                case le: True
                with eq lt l[symmetric] ge nodot dash bare more n[symmetric]
                have "parseLoop numOf lines (index + 1) currentIndent obj (push arr (Object []))
                      = Inr (i, ob, ar)"
                  by (simp add: tail_def)
                from "1.IH"(9)[OF lt l ge nodot dash tail_def bare more n le this] show ?thesis by simp
              next
                case gt: False
                from eq lt l[symmetric] ge nodot dash bare more n[symmetric] gt
                obtain b where f: "finish (parseLoop numOf lines (index + 1) (indent + 1) ([], True) None) = Inr b"
                  by (auto simp: tail_def split: sum.splits)
                obtain index' vr where b: "(index', vr) = b" by (cases b) simp
                obtain v reach where vr: "(v, reach) = vr" by (cases vr) simp
                from eq lt l[symmetric] ge nodot dash bare more n[symmetric] gt f b[symmetric] vr[symmetric]
                have "parseLoop numOf lines index' currentIndent obj (push arr v) = Inr (i, ob, ar)"
                  by (simp add: tail_def)
                from "1.IH"(11)[OF lt l ge nodot dash tail_def bare more n gt f b vr this]
                have "index' \<le> i" .
                moreover from f b vr finish_index obtain ob' ar' where
                  "parseLoop numOf lines (index + 1) (indent + 1) ([], True) None = Inr (index', ob', ar')"
                  by metis
                from "1.IH"(10)[OF lt l ge nodot dash tail_def bare more n gt this]
                have "index + 1 \<le> index'" .
                ultimately show ?thesis by simp
              qed
            qed
          qed
        qed
      qed
    qed
  qed
qed


lemma finish_ge:
  "parseLoop_dom (numOf, lines, index, cur, obj, arr) \<Longrightarrow>
   finish (parseLoop numOf lines index cur obj arr) = Inr b \<Longrightarrow> (i, vr) = b \<Longrightarrow> index \<le> i"
  using finish_index[of "parseLoop numOf lines index cur obj arr" i "fst vr" "snd vr"] parseLoop_ge
  by (cases vr) fastforce

lemma collect_ge': "(j', m') = collect lines j c m \<Longrightarrow> j \<le> j'"
  using collect_ge by metis

lemma parseLoop_total: "All (parseLoop_dom :: ((string \<Rightarrow> 'n) \<times> _) \<Rightarrow> bool)"
  apply (relation "measure (\<lambda>(numOf, lines, index, cur, obj, arr). length lines - index)")
  apply simp_all
    apply (drule collect_ge', simp)
   apply (drule (2) finish_ge, simp)
  apply (drule (2) finish_ge, simp)
  done

termination parseLoop
  by (rule parseLoop_total)


declare parseLoop.simps [simp del]

definition parseBlock ::
  "(string \<Rightarrow> 'n) \<Rightarrow> (nat \<times> string) list \<Rightarrow> nat \<Rightarrow> nat \<Rightarrow> error + (nat \<times> 'n Value \<times> bool)" where
  "parseBlock numOf lines index currentIndent =
     finish (parseLoop numOf lines index currentIndent ([], True) None)"

definition loadsArion :: "(string \<Rightarrow> 'n) \<Rightarrow> string \<Rightarrow> error + 'n Value" where
  "loadsArion numOf text =
     (let lines = tokenizeLines text in
      if length lines = 0 then Inr Null
      else
        (case lines ! 0 of (firstIndent, firstStripped) \<Rightarrow>
           (case parseBlock numOf lines 0 firstIndent of
              Inl e \<Rightarrow> Inl e
            | Inr (index, v, reach) \<Rightarrow> Inr v)))"

lemma parseLoop_index_le:
  "parseLoop numOf lines index cur obj arr = Inr (i, ob, ar) \<Longrightarrow> index \<le> i"
  using parseLoop_ge parseLoop_total by blast

lemma parseBlock_index_le:
  "parseBlock numOf lines index cur = Inr (i, v, reach) \<Longrightarrow> index \<le> i"
  unfolding parseBlock_def using finish_index parseLoop_index_le by blast

subsection \<open>Encoder\<close>

text \<open>
  \<open>encodeScalar\<close> is only ever called on a value that is neither an object nor an array;
  the model leaves it unspecified on those two.
\<close>

fun encodeScalar :: "('n \<Rightarrow> string) \<Rightarrow> 'n Value \<Rightarrow> string" where
  "encodeScalar numStr (Boolean v) = (if v then ''true'' else ''false'')"
| "encodeScalar numStr Null = ''null''"
| "encodeScalar numStr (Number v) = numStr v"
| "encodeScalar numStr (String s) =
     (if s = ''true'' \<or> s = ''false'' \<or> s = ''null'' \<or> isNumberLike s then CHR 0x27 # s else s)"

text \<open>\<open>Array.isArray(v) || (v && typeof v === "object")\<close>: \<open>null\<close> is falsy.\<close>

fun isContainer :: "'n Value \<Rightarrow> bool" where
  "isContainer (Array items) = True"
| "isContainer (Object entries) = True"
| "isContainer v = False"

text \<open>\<open>typeof v === "string" && v.includes("\n")\<close>, and the segments \<open>v.split("\n")\<close>.\<close>

fun isMultiline :: "'n Value \<Rightarrow> bool" where
  "isMultiline (String s) = (CHR 0x0A \<in> set s)"
| "isMultiline v = False"

fun segments :: "'n Value \<Rightarrow> string list" where
  "segments (String s) = splitNL s"
| "segments v = []"

text \<open>
  \<open>encodeBlock\<close> with its two \<open>for\<close> loops. The third parameter \<open>asArray\<close> of the
  source is never read and is left out.
\<close>

fun encodeBlock :: "('n \<Rightarrow> string) \<Rightarrow> 'n Value \<Rightarrow> nat \<Rightarrow> string list"
  and encodeItems :: "('n \<Rightarrow> string) \<Rightarrow> 'n Value list \<Rightarrow> nat \<Rightarrow> string list"
  and encodeEntries :: "('n \<Rightarrow> string) \<Rightarrow> (string \<times> 'n Value) list \<Rightarrow> nat \<Rightarrow> string list"
where
  "encodeBlock numStr (Array items) indent = encodeItems numStr items indent"
| "encodeBlock numStr (Object entries) indent = encodeEntries numStr entries indent"
| "encodeBlock numStr v indent = [spaces indent @ ''- '' @ encodeScalar numStr v]"
| "encodeItems numStr [] indent = []"
| "encodeItems numStr (item # rest) indent =
     (if isContainer item
        then (spaces indent @ ''-'') # encodeBlock numStr item (indent + 2)
      else if isMultiline item
        then (spaces indent @ ''-'') # map (\<lambda>line. spaces (indent + 2) @ line) (segments item)
      else [spaces indent @ ''- '' @ encodeScalar numStr item])
     @ encodeItems numStr rest indent"
| "encodeEntries numStr [] indent = []"
| "encodeEntries numStr ((k, val) # rest) indent =
     (if isContainer val
        then (spaces indent @ ''.'' @ k) # encodeBlock numStr val (indent + 2)
      else if isMultiline val
        then (spaces indent @ ''.'' @ k) # map (\<lambda>line. spaces (indent + 2) @ line) (segments val)
      else [spaces indent @ ''.'' @ k @ '' '' @ encodeScalar numStr val])
     @ encodeEntries numStr rest indent"

definition dumpsArion :: "('n \<Rightarrow> string) \<Rightarrow> 'n Value \<Rightarrow> bool \<Rightarrow> string" where
  "dumpsArion numStr v header =
     joinNL ((if header then [''!ARION 1.0'', []] else []) @ encodeBlock numStr v 0) @ [CHR 0x0A]"

text \<open>
  For running the codec on a concrete document: a host that keeps a number as the text of
  its literal.
\<close>

definition litOf :: "string \<Rightarrow> string" where
  "litOf s = s"

definition litStr :: "string \<Rightarrow> string" where
  "litStr n = n"

subsection \<open>One iteration of the loop, branch by branch\<close>

lemma parseLoop_end:
  "\<not> index < length lines \<Longrightarrow> parseLoop numOf lines index cur obj arr = Inr (index, obj, arr)"
  by (subst parseLoop.simps) simp

lemma parseLoop_break:
  "index < length lines \<Longrightarrow> lines ! index = (indent, stripped) \<Longrightarrow> indent < cur \<Longrightarrow>
   parseLoop numOf lines index cur obj arr = Inr (index, obj, arr)"
  by (subst parseLoop.simps) simp

lemma parseLoop_invalid:
  "index < length lines \<Longrightarrow> lines ! index = (indent, stripped) \<Longrightarrow> \<not> indent < cur \<Longrightarrow>
   \<not> startsWith stripped ''.'' \<Longrightarrow> \<not> startsWith stripped ''-'' \<Longrightarrow>
   parseLoop numOf lines index cur obj arr = Inl (InvalidLine indent stripped)"
  by (subst parseLoop.simps) simp

lemma parseLoop_key_inline:
  "index < length lines \<Longrightarrow> lines ! index = (indent, stripped) \<Longrightarrow> \<not> indent < cur \<Longrightarrow>
   startsWith stripped ''.'' \<Longrightarrow> indexOf (drop 1 stripped) (CHR '' '') = Some spaceIdx \<Longrightarrow>
   parseLoop numOf lines index cur obj arr =
     parseLoop numOf lines (index + 1) cur
       (objSet obj (take spaceIdx (drop 1 stripped))
          (parseScalar numOf (drop (spaceIdx + 1) (drop 1 stripped))) True) arr"
  by (subst parseLoop.simps) simp

lemma parseLoop_key_empty:
  "index < length lines \<Longrightarrow> lines ! index = (indent, stripped) \<Longrightarrow> \<not> indent < cur \<Longrightarrow>
   startsWith stripped ''.'' \<Longrightarrow> indexOf (drop 1 stripped) (CHR '' '') = None \<Longrightarrow>
   length lines \<le> index + 1 \<or> fst (lines ! (index + 1)) \<le> indent \<Longrightarrow>
   parseLoop numOf lines index cur obj arr =
     parseLoop numOf lines (index + 1) cur (objSet obj (drop 1 stripped) (Object []) True) arr"
  by (subst parseLoop.simps) (auto simp: Let_def split: prod.splits)

lemma parseLoop_key_multiline:
  "index < length lines \<Longrightarrow> lines ! index = (indent, stripped) \<Longrightarrow> \<not> indent < cur \<Longrightarrow>
   startsWith stripped ''.'' \<Longrightarrow> indexOf (drop 1 stripped) (CHR '' '') = None \<Longrightarrow>
   index + 1 < length lines \<Longrightarrow> lines ! (index + 1) = (nextIndent, nextStripped) \<Longrightarrow>
   indent < nextIndent \<Longrightarrow> \<not> structural nextStripped \<Longrightarrow>
   collect lines (index + 1) nextIndent [] = (j, multiline) \<Longrightarrow>
   parseLoop numOf lines index cur obj arr =
     parseLoop numOf lines j cur
       (objSet obj (drop 1 stripped) (String (joinNL multiline)) True) arr"
  by (subst parseLoop.simps) simp

lemma parseLoop_key_nested:
  "index < length lines \<Longrightarrow> lines ! index = (indent, stripped) \<Longrightarrow> \<not> indent < cur \<Longrightarrow>
   startsWith stripped ''.'' \<Longrightarrow> indexOf (drop 1 stripped) (CHR '' '') = None \<Longrightarrow>
   index + 1 < length lines \<Longrightarrow> lines ! (index + 1) = (nextIndent, nextStripped) \<Longrightarrow>
   indent < nextIndent \<Longrightarrow> structural nextStripped \<Longrightarrow>
   parseLoop numOf lines index cur obj arr =
     (case parseBlock numOf lines (index + 1) (indent + 1) of
        Inl e \<Rightarrow> Inl e
      | Inr (index', v, reach) \<Rightarrow>
          parseLoop numOf lines index' cur (objSet obj (drop 1 stripped) v reach) arr)"
  by (subst parseLoop.simps) (simp add: parseBlock_def split: sum.splits prod.splits)

lemma parseLoop_item_inline:
  "index < length lines \<Longrightarrow> lines ! index = (indent, stripped) \<Longrightarrow> \<not> indent < cur \<Longrightarrow>
   \<not> startsWith stripped ''.'' \<Longrightarrow> startsWith stripped ''-'' \<Longrightarrow>
   trim (drop 1 stripped) \<noteq> [] \<Longrightarrow>
   parseLoop numOf lines index cur obj arr =
     parseLoop numOf lines (index + 1) cur obj
       (push arr (parseScalar numOf (trim (drop 1 stripped))))"
  by (subst parseLoop.simps) simp

lemma parseLoop_item_empty:
  "index < length lines \<Longrightarrow> lines ! index = (indent, stripped) \<Longrightarrow> \<not> indent < cur \<Longrightarrow>
   \<not> startsWith stripped ''.'' \<Longrightarrow> startsWith stripped ''-'' \<Longrightarrow>
   trim (drop 1 stripped) = [] \<Longrightarrow>
   length lines \<le> index + 1 \<or> fst (lines ! (index + 1)) \<le> indent \<Longrightarrow>
   parseLoop numOf lines index cur obj arr =
     parseLoop numOf lines (index + 1) cur obj (push arr (Object []))"
  by (subst parseLoop.simps) (auto split: prod.splits)

lemma parseLoop_item_nested:
  "index < length lines \<Longrightarrow> lines ! index = (indent, stripped) \<Longrightarrow> \<not> indent < cur \<Longrightarrow>
   \<not> startsWith stripped ''.'' \<Longrightarrow> startsWith stripped ''-'' \<Longrightarrow>
   trim (drop 1 stripped) = [] \<Longrightarrow>
   index + 1 < length lines \<Longrightarrow> indent < fst (lines ! (index + 1)) \<Longrightarrow>
   parseLoop numOf lines index cur obj arr =
     (case parseBlock numOf lines (index + 1) (indent + 1) of
        Inl e \<Rightarrow> Inl e
      | Inr (index', v, reach) \<Rightarrow> parseLoop numOf lines index' cur obj (push arr v))"
  by (subst parseLoop.simps) (auto simp: parseBlock_def split: prod.splits sum.splits)


subsection \<open>What one iteration can do\<close>

text \<open>The key a key line declares: the text between the dot and the first space.\<close>

definition lineKey :: "string \<Rightarrow> string" where
  "lineKey stripped = takeWhile (\<lambda>c. c \<noteq> CHR '' '') (drop 1 stripped)"

lemma indexOf_Some_take: "indexOf s c = Some n \<Longrightarrow> take n s = takeWhile (\<lambda>x. x \<noteq> c) s"
  by (induction s arbitrary: n) (auto split: if_splits)

lemma indexOf_None_iff: "indexOf s c = None \<longleftrightarrow> c \<notin> set s"
  by (induction s) auto

lemma indexOf_None_takeWhile: "indexOf s c = None \<Longrightarrow> takeWhile (\<lambda>x. x \<noteq> c) s = s"
  by (induction s) (auto split: if_splits)

lemma lineKey_inline:
  "indexOf (drop 1 stripped) (CHR '' '') = Some n \<Longrightarrow> take n (drop 1 stripped) = lineKey stripped"
  unfolding lineKey_def by (rule indexOf_Some_take)

lemma lineKey_bare:
  "indexOf (drop 1 stripped) (CHR '' '') = None \<Longrightarrow> drop 1 stripped = lineKey stripped"
  unfolding lineKey_def by (rule indexOf_None_takeWhile[symmetric])

lemma parseScalar_not_container: "\<not> isContainer (parseScalar numOf s)"
  by (simp add: parseScalar_def Let_def)

text \<open>
  One iteration either leaves the loop, throws, or moves on to a later line with one key
  set or one item pushed. The value set or pushed is an inline scalar or the empty Object
  (the next iteration is at the next line), the text of a multiline string (the next
  iteration is where the inner loop stopped), or what the nested block returned.
\<close>

lemma parseLoop_step_cases [case_names Leave Invalid Key Item Nested_error]:
  obtains
    (Leave) "\<not> index < length lines \<or> fst (lines ! index) < cur"
      and "parseLoop numOf lines index cur obj arr = Inr (index, obj, arr)"
  | (Invalid) indent stripped where
      "index < length lines" and "lines ! index = (indent, stripped)" and "\<not> indent < cur"
      and "\<not> structural stripped"
      and "parseLoop numOf lines index cur obj arr = Inl (InvalidLine indent stripped)"
  | (Key) indent stripped index' v reach where
      "index < length lines" and "lines ! index = (indent, stripped)" and "\<not> indent < cur"
      and "startsWith stripped ''.''" and "index < index'"
      and "parseLoop numOf lines index cur obj arr =
           parseLoop numOf lines index' cur (objSet obj (lineKey stripped) v reach) arr"
      and "(index' = index + 1 \<and> (\<not> isContainer v \<or> v = Object []) \<and> reach)
         \<or> (\<exists>nextIndent multiline. indent < nextIndent
              \<and> collect lines (index + 1) nextIndent [] = (index', multiline)
              \<and> v = String (joinNL multiline) \<and> reach)
         \<or> (index + 1 < length lines \<and> indent < fst (lines ! (index + 1))
              \<and> parseBlock numOf lines (index + 1) (indent + 1) = Inr (index', v, reach))"
  | (Item) indent stripped index' v reach where
      "index < length lines" and "lines ! index = (indent, stripped)" and "\<not> indent < cur"
      and "startsWith stripped ''-''" and "index < index'"
      and "parseLoop numOf lines index cur obj arr =
           parseLoop numOf lines index' cur obj (push arr v)"
      and "(index' = index + 1 \<and> (\<not> isContainer v \<or> v = Object []))
         \<or> (index + 1 < length lines \<and> indent < fst (lines ! (index + 1))
              \<and> parseBlock numOf lines (index + 1) (indent + 1) = Inr (index', v, reach))"
  | (Nested_error) indent stripped e where
      "index < length lines" and "lines ! index = (indent, stripped)" and "\<not> indent < cur"
      and "structural stripped"
      and "index + 1 < length lines" and "indent < fst (lines ! (index + 1))"
      and "parseBlock numOf lines (index + 1) (indent + 1) = Inl e"
      and "parseLoop numOf lines index cur obj arr = Inl e"
proof (cases "index < length lines")
  case False
  then have "\<not> index < length lines \<or> fst (lines ! index) < cur" by simp
  then show ?thesis by (rule Leave) (rule parseLoop_end[OF False])
next
  case lt: True
  obtain indent stripped where l: "lines ! index = (indent, stripped)"
    by (cases "lines ! index")
  show ?thesis
  proof (cases "indent < cur")
    case True
    from l True have "\<not> index < length lines \<or> fst (lines ! index) < cur" by simp
    then show ?thesis by (rule Leave) (rule parseLoop_break[OF lt l True])
  next
    case ge: False
    show ?thesis
    proof (cases "startsWith stripped ''.''")
      case dot: True
      then have st: "structural stripped" by (simp add: structural_def)
      show ?thesis
      proof (cases "indexOf (drop 1 stripped) (CHR '' '')")
        case (Some spaceIdx)
        have eq: "parseLoop numOf lines index cur obj arr =
            parseLoop numOf lines (index + 1) cur
              (objSet obj (lineKey stripped)
                (parseScalar numOf (drop (spaceIdx + 1) (drop 1 stripped))) True) arr"
          unfolding lineKey_inline[OF Some, symmetric]
          by (rule parseLoop_key_inline[OF lt l ge dot Some])
        show ?thesis
          by (rule Key[OF lt l ge dot _ eq]) (simp_all add: parseScalar_not_container)
      next
        case None
        show ?thesis
        proof (cases "length lines \<le> index + 1 \<or> fst (lines ! (index + 1)) \<le> indent")
          case True
          have eq: "parseLoop numOf lines index cur obj arr =
              parseLoop numOf lines (index + 1) cur (objSet obj (lineKey stripped) (Object []) True) arr"
            unfolding lineKey_bare[OF None, symmetric]
            by (rule parseLoop_key_empty[OF lt l ge dot None True])
          show ?thesis
            by (rule Key[OF lt l ge dot _ eq]) simp_all
        next
          case False
          obtain nextIndent nextStripped where n: "lines ! (index + 1) = (nextIndent, nextStripped)"
            by (cases "lines ! (index + 1)")
          from False n have more: "index + 1 < length lines" and gt: "indent < nextIndent"
            by auto
          from gt n have gt': "indent < fst (lines ! (index + 1))" by simp
          show ?thesis
          proof (cases "structural nextStripped")
            case ns: False
            obtain j multiline where c: "collect lines (index + 1) nextIndent [] = (j, multiline)"
              by (cases "collect lines (index + 1) nextIndent []")
            from collect_ge[OF c] have j: "index < j" by simp
            have eq: "parseLoop numOf lines index cur obj arr =
                parseLoop numOf lines j cur
                  (objSet obj (lineKey stripped) (String (joinNL multiline)) True) arr"
              unfolding lineKey_bare[OF None, symmetric]
              by (rule parseLoop_key_multiline[OF lt l ge dot None more n gt ns c])
            have prov: "\<exists>nextIndent multiline'. indent < nextIndent
                \<and> collect lines (index + 1) nextIndent [] = (j, multiline')
                \<and> String (joinNL multiline) = String (joinNL multiline') \<and> True"
              using gt c by blast
            show ?thesis
              by (rule Key[OF lt l ge dot j eq]) (rule disjI2, rule disjI1, rule prov)
          next
            case nst: True
            have eq0: "parseLoop numOf lines index cur obj arr =
               (case parseBlock numOf lines (index + 1) (indent + 1) of
                  Inl e \<Rightarrow> Inl e
                | Inr (index', v, reach) \<Rightarrow>
                    parseLoop numOf lines index' cur (objSet obj (lineKey stripped) v reach) arr)"
              unfolding lineKey_bare[OF None, symmetric]
              by (rule parseLoop_key_nested[OF lt l ge dot None more n gt nst])
            show ?thesis
            proof (cases "parseBlock numOf lines (index + 1) (indent + 1)")
              case (Inl e)
              from eq0 Inl have "parseLoop numOf lines index cur obj arr = Inl e" by simp
              then show ?thesis
                by (rule Nested_error[OF lt l ge st more gt' Inl])
            next
              case (Inr b)
              obtain index' v reach where b: "b = (index', v, reach)" by (cases b)
              from Inr b have pb: "parseBlock numOf lines (index + 1) (indent + 1) = Inr (index', v, reach)"
                by simp
              from parseBlock_index_le[OF pb] have j: "index < index'" by simp
              from eq0 pb have eq: "parseLoop numOf lines index cur obj arr =
                  parseLoop numOf lines index' cur (objSet obj (lineKey stripped) v reach) arr"
                by simp
              show ?thesis
                by (rule Key[OF lt l ge dot j eq]) (intro disjI2 conjI more gt' pb)
            qed
          qed
        qed
      qed
    next
      case nodot: False
      show ?thesis
      proof (cases "startsWith stripped ''-''")
        case False
        with nodot have ns: "\<not> structural stripped" by (simp add: structural_def)
        show ?thesis
          by (rule Invalid[OF lt l ge ns]) (rule parseLoop_invalid[OF lt l ge nodot False])
      next
        case dash: True
        then have st: "structural stripped" by (simp add: structural_def)
        show ?thesis
        proof (cases "trim (drop 1 stripped) = []")
          case inline: False
          show ?thesis
            by (rule Item[OF lt l ge dash _ parseLoop_item_inline[OF lt l ge nodot dash inline]])
               (simp_all add: parseScalar_not_container)
        next
          case bare: True
          show ?thesis
          proof (cases "length lines \<le> index + 1 \<or> fst (lines ! (index + 1)) \<le> indent")
            case True
            show ?thesis
              by (rule Item[OF lt l ge dash _ parseLoop_item_empty[OF lt l ge nodot dash bare True]])
                 simp_all
          next
            case False
            then have more: "index + 1 < length lines" and gt: "indent < fst (lines ! (index + 1))"
              by auto
            note eq0 = parseLoop_item_nested[OF lt l ge nodot dash bare more gt, of numOf obj arr]
            show ?thesis
            proof (cases "parseBlock numOf lines (index + 1) (indent + 1)")
              case (Inl e)
              from eq0 Inl have "parseLoop numOf lines index cur obj arr = Inl e" by simp
              then show ?thesis
                by (rule Nested_error[OF lt l ge st more gt Inl])
            next
              case (Inr b)
              obtain index' v reach where b: "b = (index', v, reach)" by (cases b)
              from Inr b have pb: "parseBlock numOf lines (index + 1) (indent + 1) = Inr (index', v, reach)"
                by simp
              from parseBlock_index_le[OF pb] have j: "index < index'" by simp
              from eq0 pb have eq: "parseLoop numOf lines index cur obj arr =
                  parseLoop numOf lines index' cur obj (push arr v)"
                by simp
              show ?thesis
                by (rule Item[where reach = reach, OF lt l ge dash j eq]) (intro disjI2 conjI more gt pb)
            qed
          qed
        qed
      qed
    qed
  qed
qed

subsection \<open>Errors name a line of the text\<close>

lemma finish_error:
  "finish r = Inl (InvalidLine indent content) \<Longrightarrow> r = Inl (InvalidLine indent content)"
  by (cases r rule: finish.cases) (auto split: if_splits)

lemma parseLoop_error_line:
  "parseLoop numOf lines index cur obj arr = Inl (InvalidLine indent content) \<Longrightarrow>
   (indent, content) \<in> set lines \<and> \<not> structural content"
proof (induction "length lines - index" arbitrary: index cur obj arr rule: less_induct)
  case less
  show ?case
  proof (cases rule: parseLoop_step_cases[of index lines cur numOf obj arr])
    case Leave
    with less.prems show ?thesis by simp
  next
    case (Invalid indent' stripped)
    with less.prems have "indent' = indent" "stripped = content" by simp_all
    with Invalid show ?thesis using nth_mem by fastforce
  next
    case (Key indent' stripped index' v reach)
    with less.prems less.hyps[of index' cur "objSet obj (lineKey stripped) v reach" arr]
    show ?thesis by simp
  next
    case (Item indent' stripped index' v reach)
    with less.prems less.hyps[of index' cur obj "push arr v"] show ?thesis by simp
  next
    case (Nested_error indent' stripped e)
    with less.prems have "finish (parseLoop numOf lines (index + 1) (indent' + 1) ([], True) None)
        = Inl (InvalidLine indent content)"
      by (simp add: parseBlock_def)
    then have "parseLoop numOf lines (index + 1) (indent' + 1) ([], True) None
        = Inl (InvalidLine indent content)"
      by (rule finish_error)
    with Nested_error less.hyps[of "index + 1" "indent' + 1" "([], True)" None] show ?thesis
      by simp
  qed
qed

subsection \<open>Facts about the host operations\<close>

lemma dropWhile_same_length: "length (dropWhile P xs) = length xs \<Longrightarrow> dropWhile P xs = xs"
proof (cases xs)
  case Nil
  then show ?thesis by simp
next
  case (Cons x r)
  assume a: "length (dropWhile P xs) = length xs"
  have "length (dropWhile P r) \<le> length r" by (rule length_dropWhile_le)
  with a Cons show ?thesis by (auto split: if_splits)
qed

lemma trim_id_iff: "trim s = s \<longleftrightarrow> s = [] \<or> (\<not> isWhite (hd s) \<and> \<not> isWhite (last s))"
proof (cases "s = []")
  case True
  then show ?thesis by (simp add: trim_def)
next
  case ne: False
  show ?thesis
  proof
    assume r: "s = [] \<or> (\<not> isWhite (hd s) \<and> \<not> isWhite (last s))"
    with ne have "dropWhile isWhite s = s" by (simp add: dropWhile_eq_self_iff)
    moreover from r ne have "dropWhile isWhite (rev s) = rev s"
      by (simp add: dropWhile_eq_self_iff hd_rev)
    ultimately show "trim s = s" by (simp add: trim_def)
  next
    assume t: "trim s = s"
    have l1: "length (dropWhile isWhite (rev (dropWhile isWhite s))) \<le> length (dropWhile isWhite s)"
      using length_dropWhile_le[of isWhite "rev (dropWhile isWhite s)"] by simp
    have l2: "length (dropWhile isWhite s) \<le> length s" by (rule length_dropWhile_le)
    from t have "length (rev (dropWhile isWhite (rev (dropWhile isWhite s)))) = length s"
      by (simp add: trim_def)
    then have "length (dropWhile isWhite (rev (dropWhile isWhite s))) = length s"
      by simp
    with l1 l2 have "length (dropWhile isWhite s) = length s" by simp
    then have d1: "dropWhile isWhite s = s"
      by (rule dropWhile_same_length)
    with ne have h: "\<not> isWhite (hd s)" by (simp add: dropWhile_eq_self_iff)
    from t d1 have "rev (dropWhile isWhite (rev s)) = s" by (simp add: trim_def)
    then have "rev (rev (dropWhile isWhite (rev s))) = rev s" by simp
    then have "dropWhile isWhite (rev s) = rev s" by simp
    with ne have "\<not> isWhite (last s)" by (simp add: dropWhile_eq_self_iff hd_rev)
    with h show "s = [] \<or> (\<not> isWhite (hd s) \<and> \<not> isWhite (last s))" by simp
  qed
qed

text \<open>The characters a JSON number literal is made of.\<close>

definition numChar :: "char \<Rightarrow> bool" where
  "numChar c \<longleftrightarrow> c \<in> set ''0123456789+-.eE''"

lemma isDigit_numChar: "isDigit c \<Longrightarrow> numChar c"
  by (auto simp: isDigit_def numChar_def)

lemma digits1_numChar: "digits1 s \<Longrightarrow> list_all numChar s"
  by (auto simp: digits1_def list_all_iff isDigit_numChar)

lemma takeWhile_dropWhile_all:
  "list_all Q (takeWhile P s) \<Longrightarrow> list_all Q (dropWhile P s) \<Longrightarrow> list_all Q s"
  by (metis list_all_append takeWhile_dropWhile_id)

lemma takeWhile_isDigit_numChar: "list_all numChar (takeWhile isDigit s)"
  by (induction s) (auto simp: isDigit_numChar)

lemma jsonExp_numChar: "jsonExp s \<Longrightarrow> list_all numChar s"
  by (auto simp: jsonExp_def numChar_def dest!: digits1_numChar split: list.splits if_splits)

lemma jsonFrac_numChar: "jsonFrac s \<Longrightarrow> list_all numChar s"
proof (cases s)
  case Nil
  then show ?thesis by simp
next
  case (Cons c r)
  assume a: "jsonFrac s"
  show ?thesis
  proof (cases "c = CHR ''.''")
    case True
    with a Cons have "jsonExp (dropWhile isDigit r)" by (simp add: jsonFrac_def)
    then have "list_all numChar (dropWhile isDigit r)" by (rule jsonExp_numChar)
    with takeWhile_isDigit_numChar have "list_all numChar r" by (rule takeWhile_dropWhile_all)
    with True Cons show ?thesis by (simp add: numChar_def)
  next
    case False
    with a Cons have "jsonExp s" by (simp add: jsonFrac_def)
    then show ?thesis by (rule jsonExp_numChar)
  qed
qed

lemma jsonInt_numChar: "jsonInt s \<Longrightarrow> s \<noteq> [] \<and> list_all numChar s"
proof (cases s)
  case Nil
  assume "jsonInt s"
  with Nil show ?thesis by (simp add: jsonInt_def)
next
  case (Cons c r)
  assume a: "jsonInt s"
  show ?thesis
  proof (cases "c = CHR ''0''")
    case True
    with a Cons show ?thesis by (simp add: jsonInt_def jsonFrac_numChar numChar_def)
  next
    case False
    with a Cons have d: "isDigit c" and f: "jsonFrac (dropWhile isDigit r)"
      by (auto simp: jsonInt_def split: if_splits)
    from f have "list_all numChar (dropWhile isDigit r)" by (rule jsonFrac_numChar)
    with takeWhile_isDigit_numChar have "list_all numChar r" by (rule takeWhile_dropWhile_all)
    with d Cons show ?thesis by (simp add: isDigit_numChar)
  qed
qed

lemma numericLiteral_numChar: "numericLiteral s \<Longrightarrow> s \<noteq> [] \<and> list_all numChar s"
  by (cases s) (auto simp: numericLiteral_def numChar_def dest: jsonInt_numChar split: if_splits)

lemma numChar_plain: "numChar c \<Longrightarrow> \<not> isWhite c \<and> \<not> isJsonWhite c \<and> c \<noteq> CHR 0x27"
  by (auto simp: numChar_def isWhite_def isJsonWhite_def)

lemma all_numChar_ends:
  "s \<noteq> [] \<Longrightarrow> list_all numChar s \<Longrightarrow> numChar (hd s) \<and> numChar (last s)"
  by (simp add: list_all_iff)

lemma numericLiteral_trim: "numericLiteral s \<Longrightarrow> trim s = s"
  using numericLiteral_numChar[of s] all_numChar_ends[of s] numChar_plain
  by (auto simp: trim_id_iff)

lemma numericLiteral_isNumberLike: "numericLiteral s \<Longrightarrow> isNumberLike s"
proof -
  assume a: "numericLiteral s"
  from numericLiteral_numChar[OF a] all_numChar_ends[of s] numChar_plain
  have ne: "s \<noteq> []" and h: "\<not> isJsonWhite (hd s)" and l: "\<not> isJsonWhite (last s)" by auto
  from ne h have "dropWhile isJsonWhite s = s" by (simp add: dropWhile_eq_self_iff)
  moreover from ne l have "dropWhile isJsonWhite (rev s) = rev s"
    by (simp add: dropWhile_eq_self_iff hd_rev)
  ultimately show ?thesis using a by (simp add: isNumberLike_def)
qed

lemma trimmed_isNumberLike: "trim s = s \<Longrightarrow> isNumberLike s = numericLiteral s"
proof (cases "s = []")
  case True
  then show ?thesis by (simp add: isNumberLike_def)
next
  case ne: False
  assume "trim s = s"
  with ne have h: "\<not> isWhite (hd s)" and l: "\<not> isWhite (last s)" by (auto simp: trim_id_iff)
  have w: "\<And>c. isJsonWhite c \<Longrightarrow> isWhite c" by (auto simp: isJsonWhite_def isWhite_def)
  from ne h w have "dropWhile isJsonWhite s = s" by (auto simp: dropWhile_eq_self_iff)
  moreover from ne l w have "dropWhile isJsonWhite (rev s) = rev s"
    by (auto simp: dropWhile_eq_self_iff hd_rev)
  ultimately show ?thesis by (simp add: isNumberLike_def)
qed

lemma numericLiteral_not_keyword:
  "numericLiteral s \<Longrightarrow> s \<noteq> [] \<and> \<not> startsWith s [CHR 0x27] \<and> s \<noteq> ''true'' \<and> s \<noteq> ''false'' \<and> s \<noteq> ''null''"
  using numericLiteral_numChar[of s]
  by (cases s) (auto simp: startsWith_def numChar_def)

section \<open>Scalar resolution\<close>

text \<open>
  C7. On a trimmed raw string the scalar resolver applies its rules in priority order, the
  first match winning: the empty string gives the empty String; a leading quote mark gives
  the String that remains after removing exactly that one mark; exactly \<open>true\<close> or
  \<open>false\<close> gives a Boolean; exactly \<open>null\<close> gives Null; a numeric literal gives a
  Number; any other text gives itself as a String.
\<close>

theorem parseScalar_priority:
  assumes "trim raw = raw"
  shows "(raw = [] \<longrightarrow> parseScalar numOf raw = String [])
    \<and> (\<forall>r. raw = CHR 0x27 # r \<longrightarrow> parseScalar numOf raw = String r)
    \<and> (raw = ''true'' \<longrightarrow> parseScalar numOf raw = Boolean True)
    \<and> (raw = ''false'' \<longrightarrow> parseScalar numOf raw = Boolean False)
    \<and> (raw = ''null'' \<longrightarrow> parseScalar numOf raw = Null)
    \<and> (numericLiteral raw \<longrightarrow> parseScalar numOf raw = Number (numOf raw))
    \<and> (raw \<noteq> [] \<and> \<not> startsWith raw [CHR 0x27] \<and> raw \<noteq> ''true'' \<and> raw \<noteq> ''false''
         \<and> raw \<noteq> ''null'' \<and> \<not> numericLiteral raw \<longrightarrow> parseScalar numOf raw = String raw)"
proof -
  have n: "isNumberLike raw = numericLiteral raw"
    using assms by (rule trimmed_isNumberLike)
  have k: "numericLiteral raw \<Longrightarrow> parseScalar numOf raw = Number (numOf raw)"
    using numericLiteral_not_keyword[of raw] assms n by (simp add: parseScalar_def)
  show ?thesis
    using assms n k by (auto simp: parseScalar_def startsWith_def)
qed

theorem parseScalar_priority_witness:
  "trim ''true'' = ''true'' \<and> trim (CHR 0x27 # ''true'') = CHR 0x27 # ''true''
   \<and> parseScalar litOf ''true'' = Boolean True
   \<and> parseScalar litOf (CHR 0x27 # ''true'') = String ''true''"
proof -
  have a: "trim ''true'' = ''true''" by (simp add: trim_def isWhite_def)
  have b: "trim (CHR 0x27 # ''true'') = CHR 0x27 # ''true''" by (simp add: trim_def isWhite_def)
  from parseScalar_priority[OF a, of litOf] parseScalar_priority[OF b, of litOf] a b
  show ?thesis by simp
qed

section \<open>Documents without structural lines\<close>

lemma tokenizeLoop_Nil:
  "\<forall>line \<in> set ls. trim line = []
      \<or> startsWith (dropWhile (\<lambda>c. c = CHR '' '') line) ''!ARION''
      \<or> startsWith (dropWhile (\<lambda>c. c = CHR '' '') line) ''#''
   \<Longrightarrow> tokenizeLoop ls = []"
  by (induction ls) (auto simp: Let_def)

text \<open>
  C10. A text that yields no structural line (every line of it is blank or white space
  only, or has \<open>#\<close> or \<open>!ARION\<close> as the first characters after its leading spaces)
  decodes to Null. The empty text is one such text.
\<close>

theorem loadsArion_no_lines:
  assumes "\<forall>line \<in> set (splitLines text). trim line = []
      \<or> startsWith (dropWhile (\<lambda>c. c = CHR '' '') line) ''!ARION''
      \<or> startsWith (dropWhile (\<lambda>c. c = CHR '' '') line) ''#''"
  shows "loadsArion numOf text = Inr Null"
  using tokenizeLoop_Nil[OF assms] by (simp add: loadsArion_def tokenizeLines_def)

theorem loadsArion_no_lines_witness:
  "loadsArion litOf (''!ARION 1.0'' @ [CHR 0x0A, CHR 0x0A] @ ''  # note'' @ [CHR 0x0D, CHR 0x0A, CHR 0x09, CHR '' '']) = Inr Null
   \<and> loadsArion litOf [] = Inr Null"
proof -
  have h: "\<forall>line \<in> set (splitLines (''!ARION 1.0'' @ [CHR 0x0A, CHR 0x0A] @ ''  # note'' @ [CHR 0x0D, CHR 0x0A, CHR 0x09, CHR '' ''])).
      trim line = []
      \<or> startsWith (dropWhile (\<lambda>c. c = CHR '' '') line) ''!ARION''
      \<or> startsWith (dropWhile (\<lambda>c. c = CHR '' '') line) ''#''"
    by (simp add: trim_def isWhite_def startsWith_def)
  have e: "\<forall>line \<in> set (splitLines []). trim line = []
      \<or> startsWith (dropWhile (\<lambda>c. c = CHR '' '') line) ''!ARION''
      \<or> startsWith (dropWhile (\<lambda>c. c = CHR '' '') line) ''#''"
    by (simp add: trim_def)
  from loadsArion_no_lines[OF h, of litOf] loadsArion_no_lines[OF e, of litOf]
  show ?thesis by blast
qed

section \<open>Tabs\<close>

lemma dropWhile_spaces_tab:
  "dropWhile (\<lambda>c. c = CHR '' '') (spaces n @ CHR 0x09 # rest) = CHR 0x09 # rest"
  by (induction n) (simp_all add: spaces_def)

lemma length_spaces: "length (spaces n) = n"
  by (simp add: spaces_def)

lemma parseBlock_first_invalid:
  assumes "lines = (indent, stripped) # more" and "\<not> structural stripped"
  shows "parseBlock numOf lines 0 indent = Inl (InvalidLine indent stripped)"
proof -
  from assms have "parseLoop numOf lines 0 indent ([], True) None = Inl (InvalidLine indent stripped)"
    by (intro parseLoop_invalid) (simp_all add: structural_def)
  then show ?thesis by (simp add: parseBlock_def)
qed

text \<open>
  C2, as the code has it. The decoder has no check for tabs and no error of its own for
  them. Only the leading spaces of a line count towards its indent; a tab after them is the
  first character of its content, and a line of white space only is dropped. A line whose
  content starts with a tab raises the malformed-line error, with its indent and content,
  whenever the block loop reaches it, in particular when it is the first structural line
  of the text.
\<close>

theorem tab_is_content:
  "tokenizeLoop ((spaces n @ CHR 0x09 # rest) # ls) =
     (if trim (spaces n @ CHR 0x09 # rest) = [] then tokenizeLoop ls
      else (n, CHR 0x09 # rest) # tokenizeLoop ls)
   \<and> (index < length lines \<and> lines ! index = (indent, CHR 0x09 # rest) \<and> \<not> indent < cur \<longrightarrow>
        parseLoop numOf lines index cur obj arr = Inl (InvalidLine indent (CHR 0x09 # rest)))
   \<and> (tokenizeLines text = (indent, CHR 0x09 # rest) # more \<longrightarrow>
        loadsArion numOf text = Inl (InvalidLine indent (CHR 0x09 # rest)))"
proof (intro conjI impI)
  show "tokenizeLoop ((spaces n @ CHR 0x09 # rest) # ls) =
     (if trim (spaces n @ CHR 0x09 # rest) = [] then tokenizeLoop ls
      else (n, CHR 0x09 # rest) # tokenizeLoop ls)"
    by (simp add: dropWhile_spaces_tab Let_def startsWith_def length_spaces)
next
  assume "index < length lines \<and> lines ! index = (indent, CHR 0x09 # rest) \<and> \<not> indent < cur"
  then show "parseLoop numOf lines index cur obj arr = Inl (InvalidLine indent (CHR 0x09 # rest))"
    by (intro parseLoop_invalid) (simp_all add: startsWith_def)
next
  assume t: "tokenizeLines text = (indent, CHR 0x09 # rest) # more"
  have "\<not> structural (CHR 0x09 # rest)" by (simp add: structural_def startsWith_def)
  from parseBlock_first_invalid[OF t this, of numOf] t
  show "loadsArion numOf text = Inl (InvalidLine indent (CHR 0x09 # rest))"
    by (simp add: loadsArion_def)
qed

theorem tab_is_content_witness:
  "parseLoop litOf [(0, ''.a 1''), (2, CHR 0x09 # ''.b 2'')] 1 0 ([(''a'', Number ''1'')], True) None
     = Inl (InvalidLine 2 (CHR 0x09 # ''.b 2''))
   \<and> loadsArion litOf (CHR 0x09 # ''.a 1'') = Inl (InvalidLine 0 (CHR 0x09 # ''.a 1''))"
proof -
  have t: "tokenizeLines (CHR 0x09 # ''.a 1'') = (0, CHR 0x09 # ''.a 1'') # []"
    by (simp add: tokenizeLines_def trim_def isWhite_def startsWith_def)
  from tab_is_content[of 0 "''.b 2''" "[]" 1 "[(0, ''.a 1''), (2, CHR 0x09 # ''.b 2'')]" 2 0
      litOf "([(''a'', Number ''1'')], True)" None "[]" "[]"]
    tab_is_content[of 0 "''.a 1''" "[]" 0 "[]" 0 0 litOf "([], True)" None "CHR 0x09 # ''.a 1''" "[]"] t
  show ?thesis by simp
qed

text \<open>
  A line with a tab in its leading white space that decodes to a value: the second line
  is two spaces, a tab and \<open>foo\<close>, and becomes the text of a multiline string.
\<close>

theorem tab_accepted_counterexample:
  "loadsArion litOf (''.a'' @ [CHR 0x0A] @ ''  '' @ [CHR 0x09] @ ''foo'')
     = Inr (Object [(''a'', String (CHR 0x09 # ''foo''))])"
  by code_simp

section \<open>Tokenizing what the encoder writes\<close>

text \<open>
  The encoder's lines, each as the pair of its indent and its content: the same recursion
  as \<open>encodeBlock\<close>, before the spaces are put in front.
\<close>

fun tokBlock :: "('n \<Rightarrow> string) \<Rightarrow> 'n Value \<Rightarrow> nat \<Rightarrow> (nat \<times> string) list"
  and tokItems :: "('n \<Rightarrow> string) \<Rightarrow> 'n Value list \<Rightarrow> nat \<Rightarrow> (nat \<times> string) list"
  and tokEntries :: "('n \<Rightarrow> string) \<Rightarrow> (string \<times> 'n Value) list \<Rightarrow> nat \<Rightarrow> (nat \<times> string) list"
where
  "tokBlock numStr (Array items) indent = tokItems numStr items indent"
| "tokBlock numStr (Object entries) indent = tokEntries numStr entries indent"
| "tokBlock numStr v indent = [(indent, ''- '' @ encodeScalar numStr v)]"
| "tokItems numStr [] indent = []"
| "tokItems numStr (item # rest) indent =
     (if isContainer item
        then (indent, ''-'') # tokBlock numStr item (indent + 2)
      else if isMultiline item
        then (indent, ''-'') # map (\<lambda>line. (indent + 2, line)) (segments item)
      else [(indent, ''- '' @ encodeScalar numStr item)])
     @ tokItems numStr rest indent"
| "tokEntries numStr [] indent = []"
| "tokEntries numStr ((k, val) # rest) indent =
     (if isContainer val
        then (indent, ''.'' @ k) # tokBlock numStr val (indent + 2)
      else if isMultiline val
        then (indent, ''.'' @ k) # map (\<lambda>line. (indent + 2, line)) (segments val)
      else [(indent, ''.'' @ k @ '' '' @ encodeScalar numStr val)])
     @ tokEntries numStr rest indent"

definition lineOf :: "nat \<times> string \<Rightarrow> string" where
  "lineOf t = spaces (fst t) @ snd t"

lemma encode_tok:
  "encodeBlock numStr v indent = map lineOf (tokBlock numStr v indent)"
  "encodeItems numStr items indent = map lineOf (tokItems numStr items indent)"
  "encodeEntries numStr entries indent = map lineOf (tokEntries numStr entries indent)"
  by (induction numStr v indent and numStr items indent and numStr entries indent
      rule: encodeBlock_encodeItems_encodeEntries.induct)
    (simp_all add: lineOf_def comp_def)

text \<open>Splitting the text of a list of lines gives the lines back.\<close>

definition cleanLine :: "string \<Rightarrow> bool" where
  "cleanLine l \<longleftrightarrow> CHR 0x0A \<notin> set l \<and> (l = [] \<or> last l \<noteq> CHR 0x0D)"

lemma splitLines_LF: "splitLines (CHR 0x0A # rest) = [] # splitLines rest"
  by (cases rest) simp_all

lemma splitLines_line:
  "cleanLine l \<Longrightarrow> splitLines (l @ CHR 0x0A # rest) = l # splitLines rest"
proof (induction l)
  case Nil
  then show ?case by (simp add: splitLines_LF)
next
  case (Cons c l)
  from Cons.prems have c: "c \<noteq> CHR 0x0A" by (auto simp: cleanLine_def)
  show ?case
  proof (cases l)
    case Nil
    with Cons.prems have "c \<noteq> CHR 0x0D" by (simp add: cleanLine_def)
    with c Nil show ?thesis by (simp add: splitLines_LF)
  next
    case (Cons d l')
    with Cons.prems have d: "d \<noteq> CHR 0x0A" and r: "cleanLine l"
      by (auto simp: cleanLine_def)
    from Cons.IH[OF r] Cons have "splitLines (d # l' @ CHR 0x0A # rest) = (d # l') # splitLines rest"
      by simp
    with c d Cons show ?thesis by simp
  qed
qed

lemma joinNL_concat:
  "ls \<noteq> [] \<Longrightarrow> joinNL ls @ [CHR 0x0A] = concat (map (\<lambda>l. l @ [CHR 0x0A]) ls)"
  by (induction ls rule: joinNL.induct) simp_all

lemma splitLines_concat:
  "list_all cleanLine ls \<Longrightarrow> splitLines (concat (map (\<lambda>l. l @ [CHR 0x0A]) ls)) = ls @ [[]]"
  by (induction ls) (simp_all add: splitLines_line)

lemma tokenizeLoop_append: "tokenizeLoop (xs @ ys) = tokenizeLoop xs @ tokenizeLoop ys"
  by (induction xs) (simp_all add: Let_def)

lemma trim_Nil: "trim [] = []"
  by (simp add: trim_def)

lemma tokenize_joined:
  assumes "list_all cleanLine ls"
  shows "tokenizeLines (joinNL ls @ [CHR 0x0A]) = tokenizeLoop ls"
proof (cases "ls = []")
  case True
  then show ?thesis by (simp add: tokenizeLines_def trim_Nil)
next
  case False
  with assms show ?thesis
    by (simp add: tokenizeLines_def joinNL_concat splitLines_concat tokenizeLoop_append trim_Nil)
qed

text \<open>A line content that the tokenizer hands on unchanged.\<close>

definition goodContent :: "string \<Rightarrow> bool" where
  "goodContent c \<longleftrightarrow> trim c \<noteq> [] \<and> \<not> startsWith c '' '' \<and> \<not> startsWith c ''#''
     \<and> \<not> startsWith c ''!ARION''"

lemma trim_eq_Nil_iff: "trim s = [] \<longleftrightarrow> list_all isWhite s"
proof
  assume "list_all isWhite s"
  then have d: "dropWhile isWhite s = []" by (simp add: list_all_iff)
  show "trim s = []" unfolding trim_def d by simp
next
  assume t: "trim s = []"
  show "list_all isWhite s"
  proof (rule ccontr)
    assume "\<not> list_all isWhite s"
    then have "dropWhile isWhite s \<noteq> []" by (simp add: list_all_iff)
    then obtain x r where d: "dropWhile isWhite s = x # r" by (cases "dropWhile isWhite s") auto
    then have "\<not> isWhite x" using hd_dropWhile[of isWhite s] by auto
    then have "dropWhile isWhite (rev (x # r)) \<noteq> []" by simp
    with t show False unfolding trim_def d by simp
  qed
qed

lemma isWhite_space: "isWhite (CHR '' '')"
  by (simp add: isWhite_def)

lemma trim_spaces: "trim (spaces n @ c) = [] \<longleftrightarrow> trim c = []"
  by (auto simp: trim_eq_Nil_iff spaces_def list_all_iff isWhite_space)

lemma dropWhile_spaces:
  "\<not> startsWith c '' '' \<Longrightarrow> dropWhile (\<lambda>x. x = CHR '' '') (spaces n @ c) = c"
  by (induction n) (auto simp: spaces_def startsWith_def dropWhile_eq_self_iff intro: hd_conv_nth
      simp: take_Suc)

lemma tokenizeLoop_good:
  "\<forall>t \<in> set toks. goodContent (snd t) \<Longrightarrow> tokenizeLoop (map lineOf toks) = toks"
proof (induction toks)
  case Nil
  then show ?case by simp
next
  case (Cons t toks)
  obtain i c where t: "t = (i, c)" by (cases t)
  from Cons.prems t have g: "goodContent c" by simp
  then have d: "dropWhile (\<lambda>x. x = CHR '' '') (spaces i @ c) = c"
    by (simp add: goodContent_def dropWhile_spaces)
  from g have n: "trim (spaces i @ c) \<noteq> []" by (simp add: goodContent_def trim_spaces)
  from Cons t g d n show ?case
    by (simp add: lineOf_def Let_def goodContent_def length_spaces)
qed

lemma cleanLine_lineOf:
  "cleanLine c \<Longrightarrow> c \<noteq> [] \<Longrightarrow> cleanLine (lineOf (i, c))"
  by (auto simp: cleanLine_def lineOf_def spaces_def)

lemma tokenize_dumps:
  assumes "\<forall>t \<in> set (tokBlock numStr v 0). goodContent (snd t) \<and> cleanLine (snd t)"
  shows "tokenizeLines (dumpsArion numStr v header) = tokBlock numStr v 0"
proof -
  let ?hdr = "if header then [''!ARION 1.0'', []] else []"
  have g: "\<forall>t \<in> set (tokBlock numStr v 0). snd t \<noteq> []"
    using assms by (auto simp: goodContent_def trim_Nil)
  have "list_all cleanLine (map lineOf (tokBlock numStr v 0))"
    unfolding list_all_iff
  proof
    fix l assume "l \<in> set (map lineOf (tokBlock numStr v 0))"
    then obtain t where t: "t \<in> set (tokBlock numStr v 0)" and l: "l = lineOf t" by auto
    with assms g show "cleanLine l" using cleanLine_lineOf[of "snd t" "fst t"] by simp
  qed
  moreover have "list_all cleanLine ?hdr" by (simp add: cleanLine_def)
  ultimately have c: "list_all cleanLine (?hdr @ encodeBlock numStr v 0)"
    by (simp add: encode_tok)
  have "tokenizeLoop ?hdr = []" by (simp add: trim_Nil trim_def isWhite_def startsWith_def Let_def)
  moreover have "tokenizeLoop (encodeBlock numStr v 0) = tokBlock numStr v 0"
    using assms by (simp add: encode_tok tokenizeLoop_good)
  ultimately show ?thesis
    unfolding dumpsArion_def tokenize_joined[OF c] tokenizeLoop_append by simp
qed

section \<open>Values that survive the round trip\<close>

text \<open>
  The part of the value model that the text format carries without loss.

  An inline string has no line feed, no white space at either end and no leading quote
  mark. A segment of a multiline string is not blank, starts with none of space, \<open>.\<close>,
  \<open>-\<close>, \<open>#\<close> and \<open>!ARION\<close>, and does not end in a carriage return. A key has no space
  and no line feed, does not end in a carriage return and is not \<open>__proto__\<close>; the keys
  of one Object are in the order JavaScript lists them (pairwise distinct, array indices
  first and ascending). A number prints as a numeric literal that parses back to it.
\<close>

definition plainString :: "string \<Rightarrow> bool" where
  "plainString s \<longleftrightarrow> CHR 0x0A \<notin> set s \<and> trim s = s \<and> \<not> startsWith s [CHR 0x27]"

definition plainSegment :: "string \<Rightarrow> bool" where
  "plainSegment g \<longleftrightarrow> trim g \<noteq> [] \<and> \<not> startsWith g '' '' \<and> \<not> structural g
     \<and> \<not> startsWith g ''#'' \<and> \<not> startsWith g ''!ARION'' \<and> last g \<noteq> CHR 0x0D"

definition plainKey :: "string \<Rightarrow> bool" where
  "plainKey k \<longleftrightarrow> CHR '' '' \<notin> set k \<and> CHR 0x0A \<notin> set k \<and> (k = [] \<or> last k \<noteq> CHR 0x0D)
     \<and> k \<noteq> ''__proto__''"

definition keyOk :: "string list \<Rightarrow> string \<Rightarrow> bool" where
  "keyOk prev k \<longleftrightarrow> k \<notin> set prev
     \<and> (isArrayIndex k \<longrightarrow> (\<forall>k' \<in> set prev. isArrayIndex k' \<and> decimal k' < decimal k))"

definition plainNumber :: "(string \<Rightarrow> 'n) \<Rightarrow> ('n \<Rightarrow> string) \<Rightarrow> 'n \<Rightarrow> bool" where
  "plainNumber numOf numStr n \<longleftrightarrow> numericLiteral (numStr n) \<and> numOf (numStr n) = n"

text \<open>
  \<open>plainField\<close> is for the value of a key, \<open>plainItems\<close> for the items of an array (no
  multiline string and no empty string among them), \<open>plainEntries\<close> for the entries of an
  object after the keys \<open>prev\<close>. An array is never empty.
\<close>

fun plainField :: "(string \<Rightarrow> 'n) \<Rightarrow> ('n \<Rightarrow> string) \<Rightarrow> 'n Value \<Rightarrow> bool"
  and plainItems :: "(string \<Rightarrow> 'n) \<Rightarrow> ('n \<Rightarrow> string) \<Rightarrow> 'n Value list \<Rightarrow> bool"
  and plainEntries ::
    "(string \<Rightarrow> 'n) \<Rightarrow> ('n \<Rightarrow> string) \<Rightarrow> string list \<Rightarrow> (string \<times> 'n Value) list \<Rightarrow> bool"
where
  "plainField numOf numStr Null = True"
| "plainField numOf numStr (Boolean b) = True"
| "plainField numOf numStr (Number n) = plainNumber numOf numStr n"
| "plainField numOf numStr (String s) =
     (if CHR 0x0A \<in> set s then list_all plainSegment (splitNL s) else plainString s)"
| "plainField numOf numStr (Object entries) = plainEntries numOf numStr [] entries"
| "plainField numOf numStr (Array items) = (items \<noteq> [] \<and> plainItems numOf numStr items)"
| "plainItems numOf numStr [] = True"
| "plainItems numOf numStr (item # rest) =
     (plainField numOf numStr item \<and> \<not> isMultiline item \<and> item \<noteq> String []
      \<and> plainItems numOf numStr rest)"
| "plainEntries numOf numStr prev [] = True"
| "plainEntries numOf numStr prev ((k, val) # rest) =
     (plainKey k \<and> keyOk prev k \<and> plainField numOf numStr val
      \<and> plainEntries numOf numStr (prev @ [k]) rest)"

definition plainRoot :: "(string \<Rightarrow> 'n) \<Rightarrow> ('n \<Rightarrow> string) \<Rightarrow> 'n Value \<Rightarrow> bool" where
  "plainRoot numOf numStr v \<longleftrightarrow> isContainer v \<and> v \<noteq> Object [] \<and> plainField numOf numStr v"

subsection \<open>Scalars\<close>

lemma parseScalar_rules:
  assumes "trim s = s"
  shows "s = [] \<Longrightarrow> parseScalar numOf s = String []"
    and "s \<noteq> [] \<Longrightarrow> \<not> startsWith s [CHR 0x27] \<Longrightarrow> s \<noteq> ''true'' \<Longrightarrow> s \<noteq> ''false'' \<Longrightarrow>
         s \<noteq> ''null'' \<Longrightarrow> isNumberLike s \<Longrightarrow> parseScalar numOf s = Number (numOf s)"
    and "s \<noteq> [] \<Longrightarrow> \<not> startsWith s [CHR 0x27] \<Longrightarrow> s \<noteq> ''true'' \<Longrightarrow> s \<noteq> ''false'' \<Longrightarrow>
         s \<noteq> ''null'' \<Longrightarrow> \<not> isNumberLike s \<Longrightarrow> parseScalar numOf s = String s"
  unfolding parseScalar_def assms Let_def
  by (simp_all only: if_False if_True refl)

lemma parseScalar_numeric:
  assumes "numericLiteral s"
  shows "parseScalar numOf s = Number (numOf s)"
proof -
  have t: "trim s = s" using assms by (rule numericLiteral_trim)
  have n: "isNumberLike s" using assms by (rule numericLiteral_isNumberLike)
  note k = numericLiteral_not_keyword[OF assms]
  show ?thesis
    by (rule parseScalar_rules(2)[OF t k[THEN conjunct1] k[THEN conjunct2, THEN conjunct1]
          k[THEN conjunct2, THEN conjunct2, THEN conjunct1]
          k[THEN conjunct2, THEN conjunct2, THEN conjunct2, THEN conjunct1]
          k[THEN conjunct2, THEN conjunct2, THEN conjunct2, THEN conjunct2] n])
qed

lemma numericLiteral_no_LF:
  assumes "numericLiteral s"
  shows "CHR 0x0A \<notin> set s"
proof
  assume "CHR 0x0A \<in> set s"
  with numericLiteral_numChar[OF assms] have "numChar (CHR 0x0A)" by (simp add: list_all_iff)
  then show False by (simp add: numChar_def)
qed

lemma trim_quoted: "trim s = s \<Longrightarrow> trim (CHR 0x27 # s) = CHR 0x27 # s"
  by (auto simp: trim_id_iff isWhite_def)

lemma scalar_round_trip:
  assumes "plainField numOf numStr v" and "\<not> isContainer v" and "\<not> isMultiline v"
  shows "parseScalar numOf (encodeScalar numStr v) = v"
    and "trim (encodeScalar numStr v) = encodeScalar numStr v"
    and "CHR 0x0A \<notin> set (encodeScalar numStr v)"
    and "v \<noteq> String [] \<Longrightarrow> encodeScalar numStr v \<noteq> []"
proof -
  have "parseScalar numOf (encodeScalar numStr v) = v
      \<and> trim (encodeScalar numStr v) = encodeScalar numStr v
      \<and> CHR 0x0A \<notin> set (encodeScalar numStr v)
      \<and> (v \<noteq> String [] \<longrightarrow> encodeScalar numStr v \<noteq> [])"
  proof (cases v)
    case Null
    then show ?thesis by (simp add: parseScalar_def trim_def isWhite_def startsWith_def)
  next
    case (Boolean b)
    then show ?thesis by (simp add: parseScalar_def trim_def isWhite_def startsWith_def)
  next
    case (Number n)
    with assms have "numericLiteral (numStr n)" and "numOf (numStr n) = n"
      by (simp_all add: plainNumber_def)
    with Number show ?thesis
      using numericLiteral_numChar[of "numStr n"]
      by (simp add: parseScalar_numeric numericLiteral_trim numericLiteral_no_LF)
  next
    case (String s)
    with assms have p: "plainString s" by (simp split: if_splits)
    then have t: "trim s = s" and lf: "CHR 0x0A \<notin> set s" and q: "\<not> startsWith s [CHR 0x27]"
      by (simp_all add: plainString_def)
    show ?thesis
    proof (cases "s = ''true'' \<or> s = ''false'' \<or> s = ''null'' \<or> isNumberLike s")
      case True
      then have e: "encodeScalar numStr (String s) = CHR 0x27 # s" by simp
      have "parseScalar numOf (CHR 0x27 # s) = String s"
        by (simp add: parseScalar_def trim_quoted[OF t] startsWith_def)
      with e t lf String show ?thesis by (simp add: trim_quoted)
    next
      case False
      then have e: "encodeScalar numStr (String s) = s" by simp
      have "parseScalar numOf s = String s"
      proof (cases "s = []")
        case True
        then show ?thesis using parseScalar_rules(1)[OF t] by blast
      next
        case ne: False
        from False have f1: "s \<noteq> ''true''" and f2: "s \<noteq> ''false''" and f3: "s \<noteq> ''null''"
          and f4: "\<not> isNumberLike s" by (rule_tac [!] notI) (erule notE, simp only: simp_thms)+
        show ?thesis by (rule parseScalar_rules(3)[OF t ne q f1 f2 f3 f4])
      qed
      with e t lf String show ?thesis by simp
    qed
  next
    case (Object es)
    with assms show ?thesis by simp
  next
    case (Array xs)
    with assms show ?thesis by simp
  qed
  then show "parseScalar numOf (encodeScalar numStr v) = v"
    and "trim (encodeScalar numStr v) = encodeScalar numStr v"
    and "CHR 0x0A \<notin> set (encodeScalar numStr v)"
    and "v \<noteq> String [] \<Longrightarrow> encodeScalar numStr v \<noteq> []"
    by simp_all
qed

subsection \<open>The encoder's lines reach the parser unchanged\<close>

lemma trimmed_last_not_CR: "trim s = s \<Longrightarrow> s \<noteq> [] \<Longrightarrow> last s \<noteq> CHR 0x0D"
  by (auto simp: trim_id_iff isWhite_def)

lemma good_dot: "goodContent (CHR ''.'' # r)" and good_dash: "goodContent (CHR ''-'' # r)"
  by (simp_all add: goodContent_def trim_eq_Nil_iff isWhite_def startsWith_def)

lemma clean_scalar_line:
  "CHR 0x0A \<notin> set pre \<Longrightarrow> CHR 0x0A \<notin> set sc \<Longrightarrow> trim sc = sc \<Longrightarrow>
   cleanLine (pre @ CHR '' '' # sc)"
  using trimmed_last_not_CR[of sc] by (auto simp: cleanLine_def)

lemma splitNL_no_LF: "\<forall>g \<in> set (splitNL s). CHR 0x0A \<notin> set g"
proof (induction s)
  case Nil
  then show ?case by simp
next
  case (Cons c s)
  then show ?case by (cases "splitNL s") (auto split: if_splits)
qed

lemma plainSegment_token: "plainSegment g \<Longrightarrow> g \<in> set (splitNL s) \<Longrightarrow> goodContent g \<and> cleanLine g"
  using splitNL_no_LF[of s] by (auto simp: plainSegment_def goodContent_def cleanLine_def)

lemma plain_tokens:
  "plainField numOf numStr v \<Longrightarrow> isContainer v \<Longrightarrow>
     \<forall>t \<in> set (tokBlock numStr v indent). goodContent (snd t) \<and> cleanLine (snd t)"
  "plainItems numOf numStr items \<Longrightarrow>
     \<forall>t \<in> set (tokItems numStr items indent). goodContent (snd t) \<and> cleanLine (snd t)"
  "plainEntries numOf numStr prev entries \<Longrightarrow>
     \<forall>t \<in> set (tokEntries numStr entries indent). goodContent (snd t) \<and> cleanLine (snd t)"
proof (induction numStr v indent and numStr items indent and numStr entries indent
    arbitrary: and and prev rule: tokBlock_tokItems_tokEntries.induct)
  case (1 numStr items indent)
  then show ?case by simp
next
  case (2 numStr entries indent)
  then show ?case by simp
next
  case (5 numStr item rest indent)
  from "5.prems" have f: "plainField numOf numStr item" and nm: "\<not> isMultiline item"
    and r: "plainItems numOf numStr rest" by simp_all
  note rest = "5.IH"(2)[OF r]
  show ?case
  proof (cases "isContainer item")
    case True
    from "5.IH"(1)[OF True f True] rest True show ?thesis
      by (auto simp: good_dash cleanLine_def)
  next
    case False
    from scalar_round_trip[OF f False nm]
    have "cleanLine (''-'' @ CHR '' '' # encodeScalar numStr item)"
      by (intro clean_scalar_line) simp_all
    with rest False nm show ?thesis by (auto simp: good_dash)
  qed
next
  case (7 numStr k val rest indent)
  from "7.prems" have f: "plainField numOf numStr val" and k: "plainKey k"
    and r: "plainEntries numOf numStr (prev @ [k]) rest" by simp_all
  note rest = "7.IH"(2)[OF r]
  from k have ck: "cleanLine (CHR ''.'' # k)" by (auto simp: cleanLine_def plainKey_def)
  show ?case
  proof (cases "isContainer val")
    case True
    from "7.IH"(1)[OF True f True] rest True ck show ?thesis
      by (auto simp: good_dot)
  next
    case nc: False
    show ?thesis
    proof (cases "isMultiline val")
      case True
      then obtain s where s: "val = String s" and lf: "CHR 0x0A \<in> set s"
        by (cases val) auto
      with f have "list_all plainSegment (splitNL s)" by simp
      then have "\<forall>g \<in> set (splitNL s). goodContent g \<and> cleanLine g"
        using plainSegment_token by (auto simp: list_all_iff)
      with rest nc True s ck show ?thesis by (auto simp: good_dot)
    next
      case False
      from k have "CHR 0x0A \<notin> set (''.'' @ k)" by (simp add: plainKey_def)
      with scalar_round_trip[OF f nc False]
      have "cleanLine ((''.'' @ k) @ CHR '' '' # encodeScalar numStr val)"
        by (intro clean_scalar_line) simp_all
      with rest nc False show ?thesis by (auto simp: good_dot)
    qed
  qed
qed simp_all

section \<open>Parsing what the encoder wrote\<close>

text \<open>
  \<open>shallow m post\<close>: the lines \<open>post\<close> that follow a block are absent, or the first of
  them is indented less than \<open>m\<close>.
\<close>

definition shallow :: "nat \<Rightarrow> (nat \<times> string) list \<Rightarrow> bool" where
  "shallow m post \<longleftrightarrow> post = [] \<or> fst (hd post) < m"

definition pushAll :: "'v list option \<Rightarrow> 'v list \<Rightarrow> 'v list option" where
  "pushAll arr items = foldl push arr items"

lemma pushAll_Nil: "pushAll arr [] = arr"
  by (simp add: pushAll_def)

lemma pushAll_Cons: "pushAll arr (x # xs) = pushAll (push arr x) xs"
  by (simp add: pushAll_def)

lemma pushAll_Some: "pushAll (Some a) xs = Some (a @ xs)"
  by (induction xs arbitrary: a) (simp_all add: pushAll_def push_def)

lemma pushAll_None: "xs \<noteq> [] \<Longrightarrow> pushAll None xs = Some xs"
  by (cases xs) (simp_all add: pushAll_Cons push_def pushAll_Some)

lemma insertIndex_last:
  "\<forall>k' \<in> set (map fst obj). isArrayIndex k' \<and> decimal k' < decimal k \<Longrightarrow>
   insertIndex k v obj = obj @ [(k, v)]"
  by (induction obj) auto

lemma objSet_append:
  "keyOk (map fst own) k \<Longrightarrow> k \<noteq> ''__proto__'' \<Longrightarrow>
   objSet (own, s) k v reach = (own @ [(k, v)], s)"
  unfolding objSet_def keyOk_def using insertIndex_last[of own k v] by auto

subsection \<open>Positions in the line list\<close>

lemma next_shallow:
  "shallow (Suc m) r \<Longrightarrow>
   length (pre @ x # r) \<le> length pre + 1 \<or> fst ((pre @ x # r) ! (length pre + 1)) \<le> m"
  by (cases r) (auto simp: shallow_def nth_append)

lemma tok_first:
  "isContainer v \<Longrightarrow> tokBlock numStr v n = t # ts \<Longrightarrow> fst t = n"
  "tokItems numStr items n = t # ts \<Longrightarrow> fst t = n"
  "tokEntries numStr entries n = t # ts \<Longrightarrow> fst t = n"
proof -
  show i: "\<And>items. tokItems numStr items n = t # ts \<Longrightarrow> fst t = n"
    subgoal for items by (cases items) (auto split: if_splits)
    done
  show e: "\<And>entries. tokEntries numStr entries n = t # ts \<Longrightarrow> fst t = n"
    subgoal for entries by (cases entries) (auto split: if_splits)
    done
  show "isContainer v \<Longrightarrow> tokBlock numStr v n = t # ts \<Longrightarrow> fst t = n"
    using i e by (cases v) auto
qed

lemma shallow_items: "shallow m post \<Longrightarrow> n < m \<Longrightarrow> shallow m (tokItems numStr items n @ post)"
  using tok_first(2)[of numStr items n]
  by (cases "tokItems numStr items n") (auto simp: shallow_def)

lemma shallow_entries:
  "shallow m post \<Longrightarrow> n < m \<Longrightarrow> shallow m (tokEntries numStr entries n @ post)"
  using tok_first(3)[of numStr entries n]
  by (cases "tokEntries numStr entries n") (auto simp: shallow_def)

lemma shallow_mono: "shallow m post \<Longrightarrow> m \<le> m' \<Longrightarrow> shallow m' post"
  by (auto simp: shallow_def)

lemma leave_after:
  assumes "shallow cur post"
  shows "parseLoop numOf (pre @ post) (length pre) cur obj arr = Inr (length pre, obj, arr)"
proof (cases post)
  case Nil
  then show ?thesis by (simp add: parseLoop_end)
next
  case (Cons t r)
  obtain i c where t: "t = (i, c)" by (cases t)
  with assms Cons have "i < cur" by (simp add: shallow_def)
  with Cons t show ?thesis
    by (intro parseLoop_break[of _ _ i c]) simp_all
qed

subsection \<open>Strings\<close>

lemma indexOf_key: "c \<notin> set k \<Longrightarrow> indexOf (k @ c # r) c = Some (length k)"
  by (induction k) auto

lemma joinNL_Cons: "ls \<noteq> [] \<Longrightarrow> joinNL (l # ls) = l @ CHR 0x0A # joinNL ls"
  by (cases ls) simp_all

lemma splitNL_not_Nil: "splitNL s \<noteq> []"
  by (induction s) (auto split: list.splits)

lemma joinNL_splitNL: "joinNL (splitNL s) = s"
proof (induction s)
  case Nil
  then show ?case by simp
next
  case (Cons c s)
  obtain l ls where sp: "splitNL s = l # ls"
    using splitNL_not_Nil[of s] by (cases "splitNL s") auto
  show ?case
  proof (cases "c = CHR 0x0A")
    case True
    with Cons show ?thesis by (simp add: joinNL_Cons splitNL_not_Nil)
  next
    case False
    with Cons sp show ?thesis by (cases ls) auto
  qed
qed

lemma trim_space_Cons: "trim (CHR '' '' # s) = trim s"
  by (simp add: trim_def isWhite_space)

lemma collect_run:
  assumes "\<forall>g \<in> set segs. \<not> structural g" and "shallow c post"
  shows "collect (pre @ map (\<lambda>g. (c, g)) segs @ post) (length pre) c acc
    = (length pre + length segs, acc @ segs)"
  using assms(1)
proof (induction segs arbitrary: pre acc)
  case Nil
  show ?case
  proof (cases post)
    case Nil
    then show ?thesis by (simp add: collect.simps)
  next
    case (Cons t r)
    with assms(2) have "fst t < c" by (simp add: shallow_def)
    with Cons show ?thesis by (subst collect.simps) (simp add: case_prod_beta)
  qed
next
  case (Cons g segs)
  have "collect (pre @ map (\<lambda>g. (c, g)) (g # segs) @ post) (length pre) c acc
      = collect (pre @ map (\<lambda>g. (c, g)) (g # segs) @ post) (length pre + 1) c (acc @ [g])"
    using Cons.prems by (subst collect.simps) simp
  also have "pre @ map (\<lambda>g. (c, g)) (g # segs) @ post
      = (pre @ [(c, g)]) @ map (\<lambda>g. (c, g)) segs @ post" by simp
  also have "collect \<dots> (length pre + 1) c (acc @ [g])
      = (length (pre @ [(c, g)]) + length segs, (acc @ [g]) @ segs)"
    using Cons.IH[of "pre @ [(c, g)]" "acc @ [g]"] Cons.prems by simp
  finally show ?case by simp
qed

subsection \<open>The loop on the lines of a value\<close>

lemma tokItems_Nil_iff: "tokItems numStr items n = [] \<longleftrightarrow> items = []"
  by (cases items) (auto split: if_splits)

lemma tokEntries_Nil_iff: "tokEntries numStr entries n = [] \<longleftrightarrow> entries = []"
  by (cases entries) (auto split: if_splits)

lemma empty_container:
  assumes "plainField numOf numStr v" and "isContainer v" and "tokBlock numStr v n = []"
  shows "v = Object []"
  using assms by (cases v) (auto simp: tokItems_Nil_iff tokEntries_Nil_iff)

lemma dash_line:
  "\<not> startsWith ''-'' ''.''" "startsWith ''-'' ''-''" "trim (drop 1 ''-'') = []"
  by (simp_all add: startsWith_def trim_def)

lemma dash_scalar_line:
  "\<not> startsWith (''- '' @ sc) ''.''" "startsWith (''- '' @ sc) ''-''"
  "trim (drop 1 (''- '' @ sc)) = trim sc"
  by (simp_all add: startsWith_def trim_space_Cons)

lemma key_line:
  "startsWith (''.'' @ k) ''.''" "drop 1 (''.'' @ k) = k"
  by (simp_all add: startsWith_def)

lemma item_empty_step:
  assumes "cur \<le> indent" and "shallow (indent + 1) r"
  shows "parseLoop numOf (pre @ (indent, ''-'') # r) (length pre) cur obj arr
    = parseLoop numOf (pre @ (indent, ''-'') # r) (length pre + 1) cur obj (push arr (Object []))"
proof (rule parseLoop_item_empty[where indent = indent and stripped = "''-''"])
  show "length pre < length (pre @ (indent, ''-'') # r)" by simp
  show "(pre @ (indent, ''-'') # r) ! length pre = (indent, ''-'')" by simp
  show "\<not> indent < cur" using assms(1) by simp
  show "length (pre @ (indent, ''-'') # r) \<le> length pre + 1
      \<or> fst ((pre @ (indent, ''-'') # r) ! (length pre + 1)) \<le> indent"
    using next_shallow[of indent r pre "(indent, ''-'')"] assms(2) by simp
qed (rule dash_line)+

lemma item_nested_step:
  assumes "cur \<le> indent" and "indent < fst t"
    and "parseBlock numOf (pre @ (indent, ''-'') # t # r) (length pre + 1) (indent + 1)
           = Inr (index', v, reach)"
  shows "parseLoop numOf (pre @ (indent, ''-'') # t # r) (length pre) cur obj arr
    = parseLoop numOf (pre @ (indent, ''-'') # t # r) index' cur obj (push arr v)"
proof -
  have "parseLoop numOf (pre @ (indent, ''-'') # t # r) (length pre) cur obj arr =
     (case parseBlock numOf (pre @ (indent, ''-'') # t # r) (length pre + 1) (indent + 1) of
        Inl e \<Rightarrow> Inl e
      | Inr (index', v, reach) \<Rightarrow>
          parseLoop numOf (pre @ (indent, ''-'') # t # r) index' cur obj (push arr v))"
  proof (rule parseLoop_item_nested[where indent = indent and stripped = "''-''"])
    show "length pre < length (pre @ (indent, ''-'') # t # r)" by simp
    show "(pre @ (indent, ''-'') # t # r) ! length pre = (indent, ''-'')" by simp
    show "\<not> indent < cur" using assms(1) by simp
    show "length pre + 1 < length (pre @ (indent, ''-'') # t # r)" by simp
    show "indent < fst ((pre @ (indent, ''-'') # t # r) ! (length pre + 1))"
      using assms(2) by (simp add: nth_append)
  qed (rule dash_line)+
  with assms(3) show ?thesis by simp
qed

lemma item_inline_step:
  assumes "cur \<le> indent" and "trim sc = sc" and "sc \<noteq> []"
  shows "parseLoop numOf (pre @ (indent, ''- '' @ sc) # r) (length pre) cur obj arr
    = parseLoop numOf (pre @ (indent, ''- '' @ sc) # r) (length pre + 1) cur obj
        (push arr (parseScalar numOf sc))"
proof -
  have "parseLoop numOf (pre @ (indent, ''- '' @ sc) # r) (length pre) cur obj arr
    = parseLoop numOf (pre @ (indent, ''- '' @ sc) # r) (length pre + 1) cur obj
        (push arr (parseScalar numOf (trim (drop 1 (''- '' @ sc)))))"
  proof (rule parseLoop_item_inline[where indent = indent])
    show "length pre < length (pre @ (indent, ''- '' @ sc) # r)" by simp
    show "(pre @ (indent, ''- '' @ sc) # r) ! length pre = (indent, ''- '' @ sc)" by simp
    show "\<not> indent < cur" using assms(1) by simp
    show "trim (drop 1 (''- '' @ sc)) \<noteq> []" using assms(2,3) dash_scalar_line(3)[of sc] by simp
  qed (rule dash_scalar_line)+
  with assms(2) dash_scalar_line(3)[of sc] show ?thesis by simp
qed

lemma key_inline_step:
  assumes "cur \<le> indent" and "CHR '' '' \<notin> set k"
  shows "parseLoop numOf (pre @ (indent, ''.'' @ k @ '' '' @ sc) # r) (length pre) cur obj arr
    = parseLoop numOf (pre @ (indent, ''.'' @ k @ '' '' @ sc) # r) (length pre + 1) cur
        (objSet obj k (parseScalar numOf sc) True) arr"
proof -
  have i: "indexOf (drop 1 (''.'' @ k @ '' '' @ sc)) (CHR '' '') = Some (length k)"
    using indexOf_key[OF assms(2), of sc] by simp
  have "parseLoop numOf (pre @ (indent, ''.'' @ k @ '' '' @ sc) # r) (length pre) cur obj arr
    = parseLoop numOf (pre @ (indent, ''.'' @ k @ '' '' @ sc) # r) (length pre + 1) cur
        (objSet obj (take (length k) (drop 1 (''.'' @ k @ '' '' @ sc)))
           (parseScalar numOf (drop (length k + 1) (drop 1 (''.'' @ k @ '' '' @ sc)))) True) arr"
  proof (rule parseLoop_key_inline[where indent = indent, OF _ _ _ _ i])
    show "length pre < length (pre @ (indent, ''.'' @ k @ '' '' @ sc) # r)" by simp
    show "(pre @ (indent, ''.'' @ k @ '' '' @ sc) # r) ! length pre
        = (indent, ''.'' @ k @ '' '' @ sc)" by simp
    show "\<not> indent < cur" using assms(1) by simp
    show "startsWith (''.'' @ k @ '' '' @ sc) ''.''" by (simp add: startsWith_def)
  qed
  then show ?thesis by simp
qed

lemma key_bare:
  assumes "CHR '' '' \<notin> set k"
  shows "indexOf (drop 1 (''.'' @ k)) (CHR '' '') = None"
  using assms by (simp add: indexOf_None_iff)

lemma key_empty_step:
  assumes "cur \<le> indent" and "CHR '' '' \<notin> set k" and "shallow (indent + 1) r"
  shows "parseLoop numOf (pre @ (indent, ''.'' @ k) # r) (length pre) cur obj arr
    = parseLoop numOf (pre @ (indent, ''.'' @ k) # r) (length pre + 1) cur
        (objSet obj k (Object []) True) arr"
proof -
  have "parseLoop numOf (pre @ (indent, ''.'' @ k) # r) (length pre) cur obj arr
    = parseLoop numOf (pre @ (indent, ''.'' @ k) # r) (length pre + 1) cur
        (objSet obj (drop 1 (''.'' @ k)) (Object []) True) arr"
  proof (rule parseLoop_key_empty[where indent = indent, OF _ _ _ _ key_bare[OF assms(2)]])
    show "length pre < length (pre @ (indent, ''.'' @ k) # r)" by simp
    show "(pre @ (indent, ''.'' @ k) # r) ! length pre = (indent, ''.'' @ k)" by simp
    show "\<not> indent < cur" using assms(1) by simp
    show "startsWith (''.'' @ k) ''.''" by (rule key_line)
    show "length (pre @ (indent, ''.'' @ k) # r) \<le> length pre + 1
      \<or> fst ((pre @ (indent, ''.'' @ k) # r) ! (length pre + 1)) \<le> indent"
      using next_shallow[of indent r pre "(indent, ''.'' @ k)"] assms(3) by simp
  qed
  then show ?thesis by simp
qed

lemma key_nested_step:
  assumes "cur \<le> indent" and "CHR '' '' \<notin> set k" and "indent < fst t" and "structural (snd t)"
    and "parseBlock numOf (pre @ (indent, ''.'' @ k) # t # r) (length pre + 1) (indent + 1)
           = Inr (index', v, reach)"
  shows "parseLoop numOf (pre @ (indent, ''.'' @ k) # t # r) (length pre) cur obj arr
    = parseLoop numOf (pre @ (indent, ''.'' @ k) # t # r) index' cur (objSet obj k v reach) arr"
proof -
  obtain ti tc where t: "t = (ti, tc)" by (cases t)
  have "parseLoop numOf (pre @ (indent, ''.'' @ k) # t # r) (length pre) cur obj arr =
     (case parseBlock numOf (pre @ (indent, ''.'' @ k) # t # r) (length pre + 1) (indent + 1) of
        Inl e \<Rightarrow> Inl e
      | Inr (index', v, reach) \<Rightarrow>
          parseLoop numOf (pre @ (indent, ''.'' @ k) # t # r) index' cur
            (objSet obj (drop 1 (''.'' @ k)) v reach) arr)"
  proof (rule parseLoop_key_nested[where indent = indent and nextIndent = ti and nextStripped = tc,
        OF _ _ _ _ key_bare[OF assms(2)]])
    show "length pre < length (pre @ (indent, ''.'' @ k) # t # r)" by simp
    show "(pre @ (indent, ''.'' @ k) # t # r) ! length pre = (indent, ''.'' @ k)" by simp
    show "\<not> indent < cur" using assms(1) by simp
    show "startsWith (''.'' @ k) ''.''" by (rule key_line)
    show "length pre + 1 < length (pre @ (indent, ''.'' @ k) # t # r)" by simp
    show "(pre @ (indent, ''.'' @ k) # t # r) ! (length pre + 1) = (ti, tc)"
      using t by (simp add: nth_append)
    show "indent < ti" using assms(3) t by simp
    show "structural tc" using assms(4) t by simp
  qed
  with assms(5) show ?thesis by simp
qed

lemma key_multiline_step:
  assumes "cur \<le> indent" and "CHR '' '' \<notin> set k" and "segs \<noteq> []"
    and "\<forall>g \<in> set segs. \<not> structural g" and "shallow (indent + 2) r"
  shows "parseLoop numOf (pre @ (indent, ''.'' @ k) # map (\<lambda>g. (indent + 2, g)) segs @ r)
           (length pre) cur obj arr
    = parseLoop numOf (pre @ (indent, ''.'' @ k) # map (\<lambda>g. (indent + 2, g)) segs @ r)
        (length pre + 1 + length segs) cur (objSet obj k (String (joinNL segs)) True) arr"
proof -
  obtain g gs where segs: "segs = g # gs" using assms(3) by (cases segs) auto
  let ?L = "pre @ (indent, ''.'' @ k) # map (\<lambda>g. (indent + 2, g)) segs @ r"
  have c: "collect ?L (length pre + 1) (indent + 2) [] = (length pre + 1 + length segs, segs)"
    using collect_run[OF assms(4,5), of "pre @ [(indent, ''.'' @ k)]" "[]"] by simp
  have "parseLoop numOf ?L (length pre) cur obj arr
    = parseLoop numOf ?L (length pre + 1 + length segs) cur
        (objSet obj (drop 1 (''.'' @ k)) (String (joinNL segs)) True) arr"
  proof (rule parseLoop_key_multiline[where indent = indent and nextIndent = "indent + 2"
        and nextStripped = g, OF _ _ _ _ key_bare[OF assms(2)] _ _ _ _ c])
    show "length pre < length ?L" by simp
    show "?L ! length pre = (indent, ''.'' @ k)" by simp
    show "\<not> indent < cur" using assms(1) by simp
    show "startsWith (''.'' @ k) ''.''" by (rule key_line)
    show "length pre + 1 < length ?L" using segs by simp
    show "?L ! (length pre + 1) = (indent + 2, g)" using segs by (simp add: nth_append)
    show "indent < indent + 2" by simp
    show "\<not> structural g" using assms(4) segs by simp
  qed
  then show ?thesis by simp
qed

lemma parse_tokens:
  "plainField numOf numStr v \<longrightarrow> isContainer v \<longrightarrow>
     (\<forall>pre post cur. cur \<le> indent \<longrightarrow> shallow cur post \<longrightarrow>
        parseBlock numOf (pre @ tokBlock numStr v indent @ post) (length pre) cur
          = Inr (length pre + length (tokBlock numStr v indent), v, True))"
  "plainItems numOf numStr items \<longrightarrow>
     (\<forall>pre post cur obj arr. cur \<le> indent \<longrightarrow> shallow (indent + 1) post \<longrightarrow>
        parseLoop numOf (pre @ tokItems numStr items indent @ post) (length pre) cur obj arr
          = parseLoop numOf (pre @ tokItems numStr items indent @ post)
              (length pre + length (tokItems numStr items indent)) cur obj (pushAll arr items))"
  "\<forall>prev. plainEntries numOf numStr prev entries \<longrightarrow>
     (\<forall>pre post cur own s arr. map fst own = prev \<longrightarrow> cur \<le> indent \<longrightarrow> shallow (indent + 1) post \<longrightarrow>
        parseLoop numOf (pre @ tokEntries numStr entries indent @ post) (length pre) cur (own, s) arr
          = parseLoop numOf (pre @ tokEntries numStr entries indent @ post)
              (length pre + length (tokEntries numStr entries indent)) cur (own @ entries, s) arr)"
proof (induction numStr v indent and numStr items indent and numStr entries indent
    rule: tokBlock_tokItems_tokEntries.induct)
  case (1 numStr items indent)
  show ?case
  proof (intro impI allI)
    fix pre post cur
    assume f: "plainField numOf numStr (Array items)" and cur: "cur \<le> indent"
      and sh: "shallow cur post"
    from f have ne: "items \<noteq> []" and p: "plainItems numOf numStr items" by simp_all
    let ?toks = "tokItems numStr items indent"
    from sh cur have sh': "shallow (indent + 1) post" by (intro shallow_mono[OF sh]) simp
    from "1.IH"[rule_format, OF p cur sh', of pre "([], True)" None]
    have "parseLoop numOf (pre @ ?toks @ post) (length pre) cur ([], True) None
        = parseLoop numOf ((pre @ ?toks) @ post) (length (pre @ ?toks)) cur ([], True)
            (pushAll None items)"
      by simp
    also have "\<dots> = Inr (length (pre @ ?toks), ([], True), pushAll None items)"
      by (rule leave_after[OF sh])
    finally show "parseBlock numOf (pre @ tokBlock numStr (Array items) indent @ post) (length pre) cur
        = Inr (length pre + length (tokBlock numStr (Array items) indent), Array items, True)"
      using ne by (simp add: parseBlock_def pushAll_None)
  qed
next
  case (2 numStr entries indent)
  show ?case
  proof (intro impI allI)
    fix pre post cur
    assume f: "plainField numOf numStr (Object entries)" and cur: "cur \<le> indent"
      and sh: "shallow cur post"
    from f have p: "plainEntries numOf numStr [] entries" by simp
    let ?toks = "tokEntries numStr entries indent"
    from sh cur have sh': "shallow (indent + 1) post" by (intro shallow_mono[OF sh]) simp
    from "2.IH"[rule_format, OF p _ cur sh', of "[]" pre True None]
    have "parseLoop numOf (pre @ ?toks @ post) (length pre) cur ([], True) None
        = parseLoop numOf ((pre @ ?toks) @ post) (length (pre @ ?toks)) cur (entries, True) None"
      by simp
    also have "\<dots> = Inr (length (pre @ ?toks), (entries, True), None)"
      by (rule leave_after[OF sh])
    finally show "parseBlock numOf (pre @ tokBlock numStr (Object entries) indent @ post) (length pre) cur
        = Inr (length pre + length (tokBlock numStr (Object entries) indent), Object entries, True)"
      by (simp add: parseBlock_def)
  qed
next
  case (4 numStr indent)
  show ?case by (simp add: pushAll_Nil)
next
  case (5 numStr item rest indent)
  show ?case
  proof (intro impI allI)
    fix pre post cur obj arr
    assume p: "plainItems numOf numStr (item # rest)" and cur: "cur \<le> indent"
      and sh: "shallow (indent + 1) post"
    from p have f: "plainField numOf numStr item" and nm: "\<not> isMultiline item"
      and ne: "item \<noteq> String []" and r: "plainItems numOf numStr rest" by simp_all
    define rt where "rt = tokItems numStr rest indent"
    have shr: "shallow (indent + 1) (rt @ post)"
      unfolding rt_def by (rule shallow_items[OF sh]) simp
    note restIH = "5.IH"(2)[rule_format, OF r cur sh, folded rt_def]
    show "parseLoop numOf (pre @ tokItems numStr (item # rest) indent @ post) (length pre) cur obj arr
        = parseLoop numOf (pre @ tokItems numStr (item # rest) indent @ post)
            (length pre + length (tokItems numStr (item # rest) indent)) cur obj
            (pushAll arr (item # rest))"
    proof (cases "isContainer item")
      case cont: True
      define bt where "bt = tokBlock numStr item (indent + 2)"
      have toks: "tokItems numStr (item # rest) indent = (indent, ''-'') # bt @ rt"
        using cont by (simp add: bt_def rt_def)
      let ?L = "pre @ (indent, ''-'') # bt @ rt @ post"
      show ?thesis
      proof (cases "bt = []")
        case True
        with empty_container[OF f cont] have item: "item = Object []" by (simp add: bt_def)
        have "parseLoop numOf ?L (length pre) cur obj arr
            = parseLoop numOf ?L (length pre + 1) cur obj (push arr (Object []))"
          using item_empty_step[OF cur, of "rt @ post" numOf pre obj arr] shr True by simp
        also have "\<dots> = parseLoop numOf ?L (length pre + 1 + length rt) cur obj
            (pushAll (push arr (Object [])) rest)"
          using restIH[of "pre @ [(indent, ''-'')]" obj "push arr (Object [])"] True by simp
        finally show ?thesis unfolding toks using True item by (simp add: pushAll_Cons add.assoc)
      next
        case False
        then obtain t ts where bt: "bt = t # ts" by (cases bt) auto
        with tok_first(1)[OF cont, of numStr "indent + 2" t ts] have t: "fst t = indent + 2"
          by (simp add: bt_def)
        have c': "indent + 1 \<le> indent + 2" by simp
        from "5.IH"(1)[OF cont, rule_format, OF f cont c' shr, of "pre @ [(indent, ''-'')]"]
        have nested: "parseBlock numOf ?L (length pre + 1) (indent + 1)
            = Inr (length pre + 1 + length bt, item, True)"
          by (simp add: bt_def)
        have "parseLoop numOf ?L (length pre) cur obj arr
            = parseLoop numOf ?L (length pre + 1 + length bt) cur obj (push arr item)"
          using item_nested_step[OF cur, of t numOf pre "ts @ rt @ post"
              "length pre + 1 + length bt" item True obj arr] t nested bt by simp
        also have "\<dots> = parseLoop numOf ?L (length pre + 1 + length bt + length rt) cur obj
            (pushAll (push arr item) rest)"
          using restIH[of "pre @ (indent, ''-'') # bt" obj "push arr item"] by simp
        finally show ?thesis unfolding toks by (simp add: pushAll_Cons add.assoc)
      qed
    next
      case nc: False
      define sc where "sc = encodeScalar numStr item"
      have toks: "tokItems numStr (item # rest) indent = (indent, ''- '' @ sc) # rt"
        using nc nm by (simp add: sc_def rt_def)
      let ?L = "pre @ (indent, ''- '' @ sc) # rt @ post"
      note s = scalar_round_trip[OF f nc nm, folded sc_def]
      have "parseLoop numOf ?L (length pre) cur obj arr
          = parseLoop numOf ?L (length pre + 1) cur obj (push arr item)"
        using item_inline_step[OF cur s(2) s(4)[OF ne], of numOf pre "rt @ post" obj arr] s(1)
        by simp
      also have "\<dots> = parseLoop numOf ?L (length pre + 1 + length rt) cur obj
          (pushAll (push arr item) rest)"
        using restIH[of "pre @ [(indent, ''- '' @ sc)]" obj "push arr item"] by simp
      finally show ?thesis unfolding toks by (simp add: pushAll_Cons add.assoc)
    qed
  qed
next
  case (6 numStr indent)
  show ?case by simp
next
  case (7 numStr k val rest indent)
  show ?case
  proof (intro impI allI)
    fix prev pre post cur and own :: "(string \<times> 'a Value) list" and flag arr
    assume p: "plainEntries numOf numStr prev ((k, val) # rest)" and prev: "map fst own = prev"
      and cur: "cur \<le> indent" and sh: "shallow (indent + 1) post"
    from p have key: "plainKey k" and ok: "keyOk prev k" and f: "plainField numOf numStr val"
      and r: "plainEntries numOf numStr (prev @ [k]) rest" by simp_all
    from key have sp: "CHR '' '' \<notin> set k" and np: "k \<noteq> ''__proto__''"
      by (simp_all add: plainKey_def)
    have ok': "keyOk (map fst own) k" using ok prev by simp
    have set: "\<And>v reach. objSet (own, flag) k v reach = (own @ [(k, v)], flag)"
      by (rule objSet_append[OF ok' np])
    define rt where "rt = tokEntries numStr rest indent"
    have shr: "shallow (indent + 1) (rt @ post)"
      unfolding rt_def by (rule shallow_entries[OF sh]) simp
    have prev': "map fst (own @ [(k, val)]) = prev @ [k]" using prev by simp
    note restIH = "7.IH"(2)[rule_format, OF r prev' cur sh, folded rt_def]
    show "parseLoop numOf (pre @ tokEntries numStr ((k, val) # rest) indent @ post) (length pre) cur
          (own, flag) arr
        = parseLoop numOf (pre @ tokEntries numStr ((k, val) # rest) indent @ post)
            (length pre + length (tokEntries numStr ((k, val) # rest) indent)) cur
            (own @ (k, val) # rest, flag) arr"
    proof (cases "isContainer val")
      case cont: True
      define bt where "bt = tokBlock numStr val (indent + 2)"
      have toks: "tokEntries numStr ((k, val) # rest) indent = (indent, ''.'' @ k) # bt @ rt"
        using cont by (simp add: bt_def rt_def)
      let ?L = "pre @ (indent, ''.'' @ k) # bt @ rt @ post"
      show ?thesis
      proof (cases "bt = []")
        case True
        with empty_container[OF f cont] have val: "val = Object []" by (simp add: bt_def)
        have "parseLoop numOf ?L (length pre) cur (own, flag) arr
            = parseLoop numOf ?L (length pre + 1) cur (own @ [(k, val)], flag) arr"
          using key_empty_step[OF cur sp, of "rt @ post" numOf pre "(own, flag)" arr] shr True val set
          by simp
        also have "\<dots> = parseLoop numOf ?L (length pre + 1 + length rt) cur
            ((own @ [(k, val)]) @ rest, flag) arr"
          using restIH[of "pre @ [(indent, ''.'' @ k)]" flag arr] True by simp
        finally show ?thesis unfolding toks using True by (simp add: add.assoc)
      next
        case False
        then obtain t ts where bt: "bt = t # ts" by (cases bt) auto
        with tok_first(1)[OF cont, of numStr "indent + 2" t ts] have t: "fst t = indent + 2"
          by (simp add: bt_def)
        from plain_tokens(1)[OF f cont, of "indent + 2"] bt
        have "goodContent (snd t)" by (simp add: bt_def)
        have st: "structural (snd t)"
        proof (cases val)
          case (Object es)
          with bt obtain e es' where "es = e # es'"
            by (cases es) (auto simp: bt_def)
          with Object bt show ?thesis
            by (cases e) (auto simp: bt_def structural_def startsWith_def split: if_splits)
        next
          case (Array xs)
          with bt obtain x xs' where "xs = x # xs'"
            by (cases xs) (auto simp: bt_def)
          with Array bt show ?thesis
            by (auto simp: bt_def structural_def startsWith_def split: if_splits)
        qed (use cont in simp_all)
        have c': "indent + 1 \<le> indent + 2" by simp
        from "7.IH"(1)[OF cont, rule_format, OF f cont c' shr, of "pre @ [(indent, ''.'' @ k)]"]
        have nested: "parseBlock numOf ?L (length pre + 1) (indent + 1)
            = Inr (length pre + 1 + length bt, val, True)"
          by (simp add: bt_def)
        have "parseLoop numOf ?L (length pre) cur (own, flag) arr
            = parseLoop numOf ?L (length pre + 1 + length bt) cur (own @ [(k, val)], flag) arr"
          using key_nested_step[OF cur sp, of t numOf pre "ts @ rt @ post"
              "length pre + 1 + length bt" val True "(own, flag)" arr] t st nested bt set by simp
        also have "\<dots> = parseLoop numOf ?L (length pre + 1 + length bt + length rt) cur
            ((own @ [(k, val)]) @ rest, flag) arr"
          using restIH[of "pre @ (indent, ''.'' @ k) # bt" flag arr] by simp
        finally show ?thesis unfolding toks by (simp add: add.assoc)
      qed
    next
      case nc: False
      show ?thesis
      proof (cases "isMultiline val")
        case True
        then obtain s where val: "val = String s" and lf: "CHR 0x0A \<in> set s"
          by (cases val) auto
        define segs where "segs = splitNL s"
        from f val lf have ps: "list_all plainSegment segs" by (simp add: segs_def)
        then have ns: "\<forall>g \<in> set segs. \<not> structural g"
          by (auto simp: list_all_iff plainSegment_def)
        have sne: "segs \<noteq> []" by (simp add: segs_def splitNL_not_Nil)
        have toks: "tokEntries numStr ((k, val) # rest) indent
            = (indent, ''.'' @ k) # map (\<lambda>g. (indent + 2, g)) segs @ rt"
          using nc True val by (simp add: segs_def rt_def)
        let ?L = "pre @ (indent, ''.'' @ k) # map (\<lambda>g. (indent + 2, g)) segs @ rt @ post"
        have shr2: "shallow (indent + 2) (rt @ post)"
          by (rule shallow_mono[OF shr]) simp
        have "parseLoop numOf ?L (length pre) cur (own, flag) arr
            = parseLoop numOf ?L (length pre + 1 + length segs) cur (own @ [(k, val)], flag) arr"
          using key_multiline_step[OF cur sp sne ns shr2, of numOf pre "(own, flag)" arr] set val
          by (simp add: segs_def joinNL_splitNL)
        also have "\<dots> = parseLoop numOf ?L (length pre + 1 + length segs + length rt) cur
            ((own @ [(k, val)]) @ rest, flag) arr"
          using restIH[of "pre @ (indent, ''.'' @ k) # map (\<lambda>g. (indent + 2, g)) segs" flag arr]
          by simp
        finally show ?thesis unfolding toks by (simp add: add.assoc)
      next
        case nm: False
        define sc where "sc = encodeScalar numStr val"
        have toks: "tokEntries numStr ((k, val) # rest) indent
            = (indent, ''.'' @ k @ '' '' @ sc) # rt"
          using nc nm by (simp add: sc_def rt_def)
        let ?L = "pre @ (indent, ''.'' @ k @ '' '' @ sc) # rt @ post"
        note s = scalar_round_trip[OF f nc nm, folded sc_def]
        have "parseLoop numOf ?L (length pre) cur (own, flag) arr
            = parseLoop numOf ?L (length pre + 1) cur (own @ [(k, val)], flag) arr"
          using key_inline_step[OF cur sp, of numOf pre sc "rt @ post" "(own, flag)" arr] s(1) set
          by simp
        also have "\<dots> = parseLoop numOf ?L (length pre + 1 + length rt) cur
            ((own @ [(k, val)]) @ rest, flag) arr"
          using restIH[of "pre @ [(indent, ''.'' @ k @ '' '' @ sc)]" flag arr] by simp
        finally show ?thesis unfolding toks by (simp add: add.assoc)
      qed
    qed
  qed
qed simp_all

subsection \<open>Decoding an encoded value\<close>

lemma round_trip_plain:
  assumes "plainRoot numOf numStr v"
  shows "loadsArion numOf (dumpsArion numStr v header) = Inr v"
proof -
  from assms have c: "isContainer v" and ne: "v \<noteq> Object []" and f: "plainField numOf numStr v"
    by (simp_all add: plainRoot_def)
  have t: "tokenizeLines (dumpsArion numStr v header) = tokBlock numStr v 0"
    by (rule tokenize_dumps[OF plain_tokens(1)[OF f c]])
  from empty_container[OF f c, of 0] ne obtain t0 ts where toks: "tokBlock numStr v 0 = t0 # ts"
    by (cases "tokBlock numStr v 0") auto
  from tok_first(1)[OF c toks] obtain c0 where t0: "t0 = (0, c0)" by (cases t0) simp
  have sh: "shallow 0 []" by (simp add: shallow_def)
  have "parseBlock numOf ([] @ tokBlock numStr v 0 @ []) (length ([] :: (nat \<times> string) list)) 0
      = Inr (length ([] :: (nat \<times> string) list) + length (tokBlock numStr v 0), v, True)"
    by (rule parse_tokens(1)[of numOf numStr v 0, rule_format, OF f c _ sh]) simp
  then have "parseBlock numOf (tokBlock numStr v 0) 0 0 = Inr (length (tokBlock numStr v 0), v, True)"
    by simp
  with toks t0 show ?thesis by (simp add: loadsArion_def t)
qed

section \<open>Round trip\<close>

text \<open>
  C1, as the code has it. Decoding the encoding of \<open>v\<close> gives \<open>v\<close> back, key order
  included, when \<open>v\<close> is a non-empty Object or Array built as follows. No Array in it is
  empty. Every key is free of spaces and line feeds, is not \<open>__proto__\<close> and does not end
  in a carriage return, and the keys of each Object are pairwise distinct and in the order
  JavaScript lists them. Every number prints as a numeric literal that parses back to it.
  Every string without a line feed has no white space at either end and no leading quote
  mark, and is not empty when it is an array item. A string with a line feed is the value
  of a key, never an array item, and each of its lines is not blank, starts with none of
  space, \<open>.\<close>, \<open>-\<close>, \<open>#\<close> and \<open>!ARION\<close>, and does not end in a carriage return.
\<close>

theorem round_trip:
  assumes "plainRoot numOf numStr v"
  shows "loadsArion numOf (dumpsArion numStr v header) = Inr v"
  using assms by (rule round_trip_plain)

theorem round_trip_witness:
  "loadsArion litOf (dumpsArion litStr
     (Object [(''name'', String ''Joachim''), (''age'', Number ''37''), (''active'', Boolean True),
        (''profile'', Object [(''role'', String ''Developer''), (''extra'', Object [])]),
        (''skills'', Array [String ''Python'', Null, Array [Number ''1'', Number ''2'']]),
        (''bio'', String (''Line one'' @ [CHR 0x0A] @ ''Line two'')),
        (''flag'', String ''true'')]) True)
   = Inr (Object [(''name'', String ''Joachim''), (''age'', Number ''37''), (''active'', Boolean True),
        (''profile'', Object [(''role'', String ''Developer''), (''extra'', Object [])]),
        (''skills'', Array [String ''Python'', Null, Array [Number ''1'', Number ''2'']]),
        (''bio'', String (''Line one'' @ [CHR 0x0A] @ ''Line two'')),
        (''flag'', String ''true'')])"
proof -
  have "plainRoot litOf litStr
     (Object [(''name'', String ''Joachim''), (''age'', Number ''37''), (''active'', Boolean True),
        (''profile'', Object [(''role'', String ''Developer''), (''extra'', Object [])]),
        (''skills'', Array [String ''Python'', Null, Array [Number ''1'', Number ''2'']]),
        (''bio'', String (''Line one'' @ [CHR 0x0A] @ ''Line two'')),
        (''flag'', String ''true'')])"
    by (simp add: plainRoot_def plainKey_def keyOk_def plainString_def plainSegment_def
        plainNumber_def litOf_def litStr_def trim_def isWhite_def startsWith_def structural_def
        isArrayIndex_def digits1_def isDigit_def numericLiteral_def jsonInt_def jsonFrac_def
        jsonExp_def)
  then show ?thesis by (rule round_trip)
qed

text \<open>
  A scalar at the root is written as a single item line and comes back as an array of one
  item.
\<close>

theorem round_trip_counterexample:
  "loadsArion litOf (dumpsArion litStr (Boolean True) True) = Inr (Array [Boolean True])"
  by code_simp

section \<open>Forced strings\<close>

lemma keyword_plain:
  "plainString ''true''" "plainString ''false''" "plainString ''null''"
  by (simp_all add: plainString_def trim_def isWhite_def startsWith_def)

lemma numericLiteral_plain: "numericLiteral s \<Longrightarrow> plainString s"
  using numericLiteral_not_keyword[of s]
  by (simp add: plainString_def numericLiteral_trim numericLiteral_no_LF)

lemma single_entry_root:
  "plainKey k \<Longrightarrow> plainField numOf numStr val \<Longrightarrow> plainRoot numOf numStr (Object [(k, val)])"
  by (simp add: plainRoot_def keyOk_def)

text \<open>
  C4. For a string \<open>s\<close> that reads \<open>true\<close>, \<open>false\<close> or \<open>null\<close>, or is a numeric literal,
  the encoder writes the Object with the one key \<open>k\<close> and the value \<open>s\<close> as the single
  line \<open>.k 's\<close>, the scalar part starting with the quote mark, and decoding the encoded
  text gives the Object with the string \<open>s\<close> under \<open>k\<close> back. The key is any key that fits
  on a key line.
\<close>

theorem string_escape:
  assumes "s = ''true'' \<or> s = ''false'' \<or> s = ''null'' \<or> numericLiteral s"
    and "plainKey k"
  shows "encodeBlock (numStr :: 'n \<Rightarrow> string) (Object [(k, String s)]) 0
        = [''.'' @ k @ '' '' @ CHR 0x27 # s]
    \<and> loadsArion (numOf :: string \<Rightarrow> 'n) (dumpsArion numStr (Object [(k, String s)]) header)
        = Inr (Object [(k, String s)])"
proof -
  from assms(1) have p: "plainString s"
    using keyword_plain numericLiteral_plain by blast
  then have lf: "CHR 0x0A \<notin> set s" by (simp add: plainString_def)
  from assms(1) have q: "s = ''true'' \<or> s = ''false'' \<or> s = ''null'' \<or> isNumberLike s"
    using numericLiteral_isNumberLike by blast
  have e: "encodeScalar numStr (String s) = CHR 0x27 # s"
    using q by (simp only: encodeScalar.simps if_True)
  have "encodeBlock numStr (Object [(k, String s)]) 0 = [''.'' @ k @ '' '' @ CHR 0x27 # s]"
    using lf by (simp add: e spaces_def del: encodeScalar.simps)
  moreover have "plainField numOf numStr (String s)" using p lf by simp
  then have "plainRoot numOf numStr (Object [(k, String s)])"
    by (rule single_entry_root[OF assms(2)])
  then have "loadsArion numOf (dumpsArion numStr (Object [(k, String s)]) header)
      = Inr (Object [(k, String s)])"
    by (rule round_trip_plain)
  ultimately show ?thesis by simp
qed

theorem string_escape_witness:
  "encodeBlock litStr (Object [(''k'', String ''-3.14'')]) 0 = [''.k '' @ CHR 0x27 # ''-3.14'']
   \<and> loadsArion litOf (dumpsArion litStr (Object [(''k'', String ''-3.14'')]) True)
       = Inr (Object [(''k'', String ''-3.14'')])
   \<and> encodeBlock litStr (Object [(''k'', String ''true'')]) 0 = [''.k '' @ CHR 0x27 # ''true'']
   \<and> loadsArion litOf (dumpsArion litStr (Object [(''k'', String ''true'')]) True)
       = Inr (Object [(''k'', String ''true'')])"
proof -
  have n: "''-3.14'' = ''true'' \<or> ''-3.14'' = ''false'' \<or> ''-3.14'' = ''null''
      \<or> numericLiteral ''-3.14''"
    by (simp add: numericLiteral_def jsonInt_def jsonFrac_def jsonExp_def isDigit_def)
  have t: "''true'' = ''true'' \<or> ''true'' = ''false'' \<or> ''true'' = ''null''
      \<or> numericLiteral ''true''"
    by simp
  have k: "plainKey ''k''" by (simp add: plainKey_def)
  from string_escape[OF n k, of litStr litOf True] string_escape[OF t k, of litStr litOf True]
  show ?thesis by simp
qed

section \<open>Multiline strings\<close>

text \<open>
  C5, as the code has it. A string with a line feed, given as the value of a key, comes
  back from encoding and decoding with every line and the number of lines unchanged when
  each of its lines is not blank, starts with none of space, \<open>.\<close>, \<open>-\<close>, \<open>#\<close> and
  \<open>!ARION\<close>, and does not end in a carriage return. The key is any key that fits on a
  key line.
\<close>

theorem multiline_round_trip:
  assumes "CHR 0x0A \<in> set s" and "list_all plainSegment (splitNL s)" and "plainKey k"
  shows "loadsArion (numOf :: string \<Rightarrow> 'n)
        (dumpsArion (numStr :: 'n \<Rightarrow> string) (Object [(k, String s)]) header)
      = Inr (Object [(k, String s)])"
proof -
  from assms(1,2) have "plainField numOf numStr (String s)" by simp
  then have "plainRoot numOf numStr (Object [(k, String s)])"
    by (rule single_entry_root[OF assms(3)])
  then show ?thesis by (rule round_trip_plain)
qed

theorem multiline_round_trip_witness:
  "loadsArion litOf (dumpsArion litStr
      (Object [(''bio'', String (''Line one'' @ [CHR 0x0A] @ ''Line two'' @ [CHR 0x0A] @ ''Line three''))]) True)
   = Inr (Object [(''bio'', String (''Line one'' @ [CHR 0x0A] @ ''Line two'' @ [CHR 0x0A] @ ''Line three''))])"
proof -
  have a: "CHR 0x0A \<in> set (''Line one'' @ [CHR 0x0A] @ ''Line two'' @ [CHR 0x0A] @ ''Line three'')"
    by simp
  have b: "list_all plainSegment
      (splitNL (''Line one'' @ [CHR 0x0A] @ ''Line two'' @ [CHR 0x0A] @ ''Line three''))"
    by (simp add: plainSegment_def trim_def isWhite_def startsWith_def structural_def)
  have c: "plainKey ''bio''" by (simp add: plainKey_def)
  show ?thesis by (rule multiline_round_trip[OF a b c])
qed

text \<open>
  A blank line inside the string is lost: none of the three lines starts with \<open>.\<close> or
  \<open>-\<close>, and two lines come back.
\<close>

theorem multiline_counterexample:
  "loadsArion litOf (dumpsArion litStr
      (Object [(''k'', String (''a'' @ [CHR 0x0A, CHR 0x0A] @ ''b''))]) True)
   = Inr (Object [(''k'', String (''a'' @ [CHR 0x0A] @ ''b''))])"
  by code_simp

section \<open>Keys and items without a value\<close>

text \<open>
  A key that is not \<open>__proto__\<close>, or any key once the inherited setter is out of reach,
  holds the value assigned to it.
\<close>

lemma map_of_insertIndex: "map_of (insertIndex k v own) k = Some v"
  by (induction own) auto

lemma map_of_replace:
  "k \<in> set (map fst own) \<Longrightarrow>
   map_of (map (\<lambda>(k', x). if k' = k then (k', v) else (k', x)) own) k = Some v"
  by (induction own) auto

lemma objSet_assigns:
  assumes "key = ''__proto__'' \<longrightarrow> \<not> snd obj"
  shows "map_of (fst (objSet obj key v reach)) key = Some v"
proof (cases obj)
  case (Pair own setter)
  show ?thesis
  proof (cases "key \<in> set (map fst own)")
    case True
    then show ?thesis using Pair map_of_replace[OF True, of v] by (simp add: objSet_def)
  next
    case False
    from assms Pair have np: "(key = ''__proto__'' \<and> setter) = False" by simp
    show ?thesis
    proof (cases "isArrayIndex key")
      case True
      with False Pair show ?thesis by (simp add: objSet_def np map_of_insertIndex)
    next
      case ni: False
      from False have "map_of own key = None" by (simp add: map_of_eq_None_iff)
      with False ni Pair show ?thesis by (simp add: objSet_def np map_add_def)
    qed
  qed
qed

text \<open>
  C9. The text of the one line \<open>.__proto__\<close> is a key line without an inline value and
  without a next line. The look-ahead branch runs \<open>obj[key] = {}\<close> on it, which for this
  key calls the setter inherited from \<open>Object.prototype\<close>: the prototype of \<open>obj\<close> is
  replaced and no own key is created. The Object returned has no key, where the rule
  gives the key \<open>__proto__\<close> an empty Object.
\<close>

theorem proto_key_not_assigned:
  "loadsArion litOf ''.__proto__'' = Inr (Object [])"
  by code_simp

section \<open>The lines of a block\<close>

lemma finish_Inr:
  "finish r = Inr (i, v, reach) \<Longrightarrow> \<exists>obj arr. r = Inr (i, obj, arr)"
  by (cases r rule: finish.cases) (auto split: if_splits)

lemma parseBlock_Inr:
  "parseBlock numOf lines index cur = Inr (i, v, reach) \<Longrightarrow>
   \<exists>obj arr. parseLoop numOf lines index cur ([], True) None = Inr (i, obj, arr)"
  unfolding parseBlock_def by (rule finish_Inr)

text \<open>The lines of a multiline string sit at the indent of its first line and are not structural.\<close>

lemma collect_consumed:
  "collect lines j childIndent acc = (j', ml) \<Longrightarrow> j \<le> i \<Longrightarrow> i < j' \<Longrightarrow>
   fst (lines ! i) = childIndent \<and> \<not> structural (snd (lines ! i))"
proof (induction lines j childIndent acc rule: collect.induct)
  case (1 lines j childIndent multiline)
  show ?case
  proof (cases "j < length lines")
    case False
    with "1.prems" show ?thesis by (simp add: collect.simps[of lines j])
  next
    case True
    obtain ci cs where l: "lines ! j = (ci, cs)" by (cases "lines ! j")
    show ?thesis
    proof (cases "ci = childIndent \<and> \<not> structural cs")
      case False
      with True l "1.prems" show ?thesis
        by (auto simp: collect.simps[of lines j] split: if_splits)
    next
      case take: True
      with True l "1.prems"(1)
      have c: "collect lines (j + 1) childIndent (multiline @ [cs]) = (j', ml)"
        by (simp add: collect.simps[of lines j])
      show ?thesis
      proof (cases "i = j")
        case True
        with l take show ?thesis by simp
      next
        case False
        with "1.prems" have "j + 1 \<le> i" by simp
        from "1.IH"[OF True l[symmetric] _ _ c this "1.prems"(3)] take show ?thesis by simp
      qed
    qed
  qed
qed

text \<open>
  Every line a loop passes, at its own level or inside the value of one of its lines, is
  indented at least as deep as the block.
\<close>

lemma parseLoop_consumed:
  "parseLoop numOf lines index cur obj arr = Inr (i', st) \<Longrightarrow> index \<le> i \<Longrightarrow> i < i' \<Longrightarrow>
   cur \<le> fst (lines ! i)"
proof (induction "length lines - index" arbitrary: index cur obj arr i' st rule: less_induct)
  case less
  have nested: "indent + 1 \<le> fst (lines ! i)"
    if "parseBlock numOf lines (index + 1) (indent + 1) = Inr (index', v, reach)"
      and "index < length lines" and "index < i" and "i < index'" for indent index' v reach
  proof -
    from parseBlock_Inr[OF that(1)] obtain ob ar where
      "parseLoop numOf lines (index + 1) (indent + 1) ([], True) None = Inr (index', ob, ar)"
      by blast
    from less.hyps[OF _ this] that show ?thesis by simp
  qed
  show ?case
  proof (cases rule: parseLoop_step_cases[of index lines cur numOf obj arr])
    case Leave
    with less.prems show ?thesis by simp
  next
    case (Invalid indent stripped)
    with less.prems show ?thesis by simp
  next
    case (Key indent stripped index' v reach)
    show ?thesis
    proof (cases "index' \<le> i")
      case True
      from Key(6) less.prems(1)
      have "parseLoop numOf lines index' cur (objSet obj (lineKey stripped) v reach) arr = Inr (i', st)"
        by simp
      from less.hyps[OF _ this True less.prems(3)] Key(1,5) show ?thesis by simp
    next
      case False
      show ?thesis
      proof (cases "i = index")
        case True
        with Key(2,3) show ?thesis by simp
      next
        case ne: False
        with less.prems(2) False have i: "index < i" "i < index'" by simp_all
        from Key(7) consider "index' = index + 1"
          | nextIndent multiline where "indent < nextIndent"
              and "collect lines (index + 1) nextIndent [] = (index', multiline)"
          | "parseBlock numOf lines (index + 1) (indent + 1) = Inr (index', v, reach)"
          by blast
        then have "indent < fst (lines ! i)"
        proof cases
          case 1
          with i show ?thesis by simp
        next
          case 2
          with collect_consumed[of lines "index + 1" nextIndent "[]" index' multiline i] i
          show ?thesis by simp
        next
          case 3
          from nested[OF this Key(1) i] show ?thesis by simp
        qed
        with Key(3) show ?thesis by simp
      qed
    qed
  next
    case (Item indent stripped index' v reach)
    show ?thesis
    proof (cases "index' \<le> i")
      case True
      from Item(6) less.prems(1)
      have "parseLoop numOf lines index' cur obj (push arr v) = Inr (i', st)"
        by simp
      from less.hyps[OF _ this True less.prems(3)] Item(1,5) show ?thesis by simp
    next
      case False
      show ?thesis
      proof (cases "i = index")
        case True
        with Item(2,3) show ?thesis by simp
      next
        case ne: False
        with less.prems(2) False have i: "index < i" "i < index'" by simp_all
        from Item(7) consider "index' = index + 1"
          | "parseBlock numOf lines (index + 1) (indent + 1) = Inr (index', v, reach)"
          by blast
        then have "indent < fst (lines ! i)"
        proof cases
          case 1
          with i show ?thesis by simp
        next
          case 2
          from nested[OF this Item(1) i] show ?thesis by simp
        qed
        with Item(3) show ?thesis by simp
      qed
    qed
  next
    case (Nested_error indent stripped e)
    with less.prems show ?thesis by simp
  qed
qed

lemma parseBlock_consumed:
  assumes "parseBlock numOf lines index cur = Inr (i', v, reach)" and "index \<le> i" and "i < i'"
  shows "cur \<le> fst (lines ! i)"
proof -
  from parseBlock_Inr[OF assms(1)] obtain ob ar where
    "parseLoop numOf lines index cur ([], True) None = Inr (i', ob, ar)" by blast
  from parseLoop_consumed[OF this assms(2,3)] show ?thesis .
qed

text \<open>
  One iteration on a line inside the block, seen from outside: the loop throws, or goes on
  at a later line. The lines it skips are the lines of the value, all indented deeper than
  the line itself; a structural line among them belongs to the nested block. A key that is
  not \<open>__proto__\<close> leaves the object with an own key, an item leaves an array, and
  neither is ever taken away.
\<close>

lemma insertIndex_not_Nil: "insertIndex k v own \<noteq> []"
  by (cases own) (auto split: if_splits)

lemma objSet_keeps: "fst obj \<noteq> [] \<Longrightarrow> fst (objSet obj key v reach) \<noteq> []"
  by (cases obj) (auto simp: objSet_def insertIndex_not_Nil split: if_splits)

lemma objSet_adds:
  assumes "key \<noteq> ''__proto__''"
  shows "fst (objSet obj key v reach) \<noteq> []"
proof (cases obj)
  case (Pair own setter)
  show ?thesis
  proof (cases "own = []")
    case False
    with Pair objSet_keeps[of obj key v reach] show ?thesis by simp
  next
    case True
    from assms have np: "(key = ''__proto__'' \<and> setter) = False" by simp
    from True Pair show ?thesis by (simp add: objSet_def np insertIndex_not_Nil)
  qed
qed

lemma push_Some: "push arr v \<noteq> None"
  by (simp add: push_def)

lemma loop_step [consumes 3, case_names Error Next]:
  assumes "index < length lines" and "lines ! index = (indent, stripped)" and "cur \<le> indent"
  obtains
    (Error) e where "parseLoop numOf lines index cur obj arr = Inl e"
  | (Next) index' obj' arr' where
      "parseLoop numOf lines index cur obj arr = parseLoop numOf lines index' cur obj' arr'"
      and "index < index'"
      and "\<And>i. index < i \<Longrightarrow> i < index' \<Longrightarrow> indent < fst (lines ! i)"
      and "fst obj \<noteq> [] \<Longrightarrow> fst obj' \<noteq> []"
      and "arr \<noteq> None \<Longrightarrow> arr' \<noteq> None"
      and "startsWith stripped ''.'' \<Longrightarrow> lineKey stripped \<noteq> ''__proto__'' \<Longrightarrow> fst obj' \<noteq> []"
      and "startsWith stripped ''-'' \<Longrightarrow> arr' \<noteq> None"
proof (cases rule: parseLoop_step_cases[of index lines cur numOf obj arr])
  case Leave
  with assms show ?thesis by simp
next
  case (Invalid indent' stripped')
  then show ?thesis using Error by blast
next
  case (Nested_error indent' stripped' e)
  then show ?thesis using Error by blast
next
  case (Key indent' stripped' index' v reach)
  with assms have same: "indent' = indent" "stripped' = stripped" by simp_all
  from Key(7) consider "index' = index + 1"
    | nextIndent multiline where "indent' < nextIndent"
        and "collect lines (index + 1) nextIndent [] = (index', multiline)"
    | "parseBlock numOf lines (index + 1) (indent' + 1) = Inr (index', v, reach)"
    by blast
  note prov = this
  have deeper: "indent < fst (lines ! i)" if i: "index < i" "i < index'" for i
  proof (cases rule: prov)
    case 1
    with i show ?thesis by simp
  next
    case 2
    with collect_consumed[of lines "index + 1" nextIndent "[]" index' multiline i] i same
    show ?thesis by simp
  next
    case 3
    from parseBlock_consumed[OF this, of i] i same show ?thesis by simp
  qed
  from Key(4) have nd: "\<not> startsWith stripped ''-''"
    using same by (cases stripped) (auto simp: startsWith_def)
  show ?thesis
  proof (rule Next[of index' "objSet obj (lineKey stripped) v reach" arr])
    show "parseLoop numOf lines index cur obj arr =
        parseLoop numOf lines index' cur (objSet obj (lineKey stripped) v reach) arr"
      using Key(6) same by simp
    show "index < index'" by (rule Key(5))
    show "\<And>i. index < i \<Longrightarrow> i < index' \<Longrightarrow> indent < fst (lines ! i)" by (rule deeper)
    show "fst obj \<noteq> [] \<Longrightarrow> fst (objSet obj (lineKey stripped) v reach) \<noteq> []"
      by (rule objSet_keeps)
    show "arr \<noteq> None \<Longrightarrow> arr \<noteq> None" .
    show "startsWith stripped ''.'' \<Longrightarrow> lineKey stripped \<noteq> ''__proto__'' \<Longrightarrow>
        fst (objSet obj (lineKey stripped) v reach) \<noteq> []"
      by (rule objSet_adds)
    show "startsWith stripped ''-'' \<Longrightarrow> arr \<noteq> None" using nd by simp
  qed
next
  case (Item indent' stripped' index' v reach)
  with assms have same: "indent' = indent" "stripped' = stripped" by simp_all
  from Item(7) consider "index' = index + 1"
    | "parseBlock numOf lines (index + 1) (indent' + 1) = Inr (index', v, reach)"
    by blast
  note prov = this
  have deeper: "indent < fst (lines ! i)" if i: "index < i" "i < index'" for i
  proof (cases rule: prov)
    case 1
    with i show ?thesis by simp
  next
    case 2
    from parseBlock_consumed[OF this, of i] i same show ?thesis by simp
  qed
  from Item(4) have nd: "\<not> startsWith stripped ''.''"
    using same by (cases stripped) (auto simp: startsWith_def)
  show ?thesis
  proof (rule Next[of index' obj "push arr v"])
    show "parseLoop numOf lines index cur obj arr = parseLoop numOf lines index' cur obj (push arr v)"
      by (rule Item(6))
    show "index < index'" by (rule Item(5))
    show "\<And>i. index < i \<Longrightarrow> i < index' \<Longrightarrow> indent < fst (lines ! i)" by (rule deeper)
    show "fst obj \<noteq> [] \<Longrightarrow> fst obj \<noteq> []" .
    show "arr \<noteq> None \<Longrightarrow> push arr v \<noteq> None" by (simp add: push_Some)
    show "startsWith stripped ''.'' \<Longrightarrow> lineKey stripped \<noteq> ''__proto__'' \<Longrightarrow> fst obj \<noteq> []"
      using nd by simp
    show "startsWith stripped ''-'' \<Longrightarrow> push arr v \<noteq> None" by (simp add: push_Some)
  qed
qed

section \<open>Mixed containers\<close>

text \<open>Once the object has an own key and the array exists, the block cannot return.\<close>

lemma mixed_state:
  "fst obj \<noteq> [] \<Longrightarrow> arr \<noteq> None \<Longrightarrow>
   \<exists>e. finish (parseLoop numOf lines index cur obj arr) = Inl e"
proof (induction "length lines - index" arbitrary: index obj arr rule: less_induct)
  case less
  show ?case
  proof (cases "index < length lines \<and> cur \<le> fst (lines ! index)")
    case False
    then have "parseLoop numOf lines index cur obj arr = Inr (index, obj, arr)"
      using parseLoop_end[of index lines numOf cur obj arr]
        parseLoop_break[of index lines "fst (lines ! index)" "snd (lines ! index)" cur numOf obj arr]
      by (cases "index < length lines") simp_all
    moreover obtain own setter a where "obj = (own, setter)" "arr = Some a" "own \<noteq> []"
      using less.prems by (cases obj; cases arr) auto
    ultimately show ?thesis by simp
  next
    case True
    obtain indent stripped where l: "lines ! index = (indent, stripped)"
      by (cases "lines ! index")
    with True have lt: "index < length lines" and ge: "cur \<le> indent" by simp_all
    from lt l ge show ?thesis
    proof (cases rule: loop_step[where numOf = numOf and obj = obj and arr = arr])
      case (Error e)
      then show ?thesis by simp
    next
      case (Next index' obj' arr')
      from less.hyps[of index' obj' arr'] Next(2) lt Next(4,5) less.prems Next(1)
      show ?thesis by simp
    qed
  qed
qed

text \<open>
  A loop reaches every line of its block at which the indent is lowest: no value of an
  earlier line extends over it.
\<close>

lemma reach_line:
  assumes "j < length lines" and "fst (lines ! j) = d" and "cur \<le> d"
    and "index \<le> j" and "\<And>i. index \<le> i \<Longrightarrow> i < j \<Longrightarrow> d \<le> fst (lines ! i)"
  shows "(\<exists>e. parseLoop numOf lines index cur obj arr = Inl e)
       \<or> (\<exists>obj' arr'. parseLoop numOf lines index cur obj arr = parseLoop numOf lines j cur obj' arr'
            \<and> (fst obj \<noteq> [] \<longrightarrow> fst obj' \<noteq> []) \<and> (arr \<noteq> None \<longrightarrow> arr' \<noteq> None))"
  using assms(4,5)
proof (induction "j - index" arbitrary: index obj arr rule: less_induct)
  case less
  show ?case
  proof (cases "index = j")
    case True
    then show ?thesis by blast
  next
    case False
    with less.prems(1) have lt: "index < j" by simp
    obtain indent stripped where l: "lines ! index = (indent, stripped)"
      by (cases "lines ! index")
    from less.prems(2)[of index] lt l have d: "d \<le> indent" by simp
    from lt assms(1) have len: "index < length lines" by simp
    from d assms(3) have ge: "cur \<le> indent" by simp
    from len l ge show ?thesis
    proof (cases rule: loop_step[where numOf = numOf and obj = obj and arr = arr])
      case (Error e)
      then show ?thesis by blast
    next
      case (Next index' obj' arr')
      have le: "index' \<le> j"
      proof (rule ccontr)
        assume "\<not> index' \<le> j"
        with Next(3)[of j] lt assms(2) d show False by simp
      qed
      have "(\<exists>e. parseLoop numOf lines index' cur obj' arr' = Inl e)
         \<or> (\<exists>obj'' arr''. parseLoop numOf lines index' cur obj' arr'
                = parseLoop numOf lines j cur obj'' arr''
              \<and> (fst obj' \<noteq> [] \<longrightarrow> fst obj'' \<noteq> []) \<and> (arr' \<noteq> None \<longrightarrow> arr'' \<noteq> None))"
      proof (rule less.hyps[OF _ le])
        show "j - index' < j - index" using Next(2) lt by simp
        show "\<And>i. index' \<le> i \<Longrightarrow> i < j \<Longrightarrow> d \<le> fst (lines ! i)"
          using less.prems(2) Next(2) by simp
      qed
      then show ?thesis
      proof (elim disjE exE conjE)
        fix e assume "parseLoop numOf lines index' cur obj' arr' = Inl e"
        with Next(1) show ?thesis by simp
      next
        fix obj'' arr''
        assume run: "parseLoop numOf lines index' cur obj' arr' = parseLoop numOf lines j cur obj'' arr''"
          and k1: "fst obj' \<noteq> [] \<longrightarrow> fst obj'' \<noteq> []" and k2: "arr' \<noteq> None \<longrightarrow> arr'' \<noteq> None"
        have "parseLoop numOf lines index cur obj arr = parseLoop numOf lines j cur obj'' arr''"
          using Next(1) run by simp
        moreover have "fst obj \<noteq> [] \<longrightarrow> fst obj'' \<noteq> []" using Next(4) k1 by blast
        moreover have "arr \<noteq> None \<longrightarrow> arr'' \<noteq> None" using Next(5) k2 by blast
        ultimately show ?thesis by blast
      qed
    qed
  qed
qed

text \<open>
  Two lines of one block, a key line and an item line at the same indent with no
  shallower line between them: the block that holds them throws, and so does every block
  around it.
\<close>

lemma pair_rejected:
  assumes ab: "a < b" "b < length lines"
    and la: "lines ! a = (d, sa)" and lb: "lines ! b = (d, sb)"
    and between: "\<And>i. a < i \<Longrightarrow> i < b \<Longrightarrow> d \<le> fst (lines ! i)"
    and kinds: "(startsWith sa ''.'' \<and> lineKey sa \<noteq> ''__proto__'' \<and> startsWith sb ''-'')
              \<or> (startsWith sa ''-'' \<and> startsWith sb ''.'' \<and> lineKey sb \<noteq> ''__proto__'')"
  shows "index \<le> a \<Longrightarrow> (\<And>i. index \<le> i \<Longrightarrow> i \<le> a \<Longrightarrow> cur \<le> fst (lines ! i)) \<Longrightarrow>
     \<exists>e. finish (parseLoop numOf lines index cur obj arr) = Inl e"
proof (induction "length lines - index" arbitrary: index cur obj arr rule: less_induct)
  case less
  from kinds have sa: "structural sa" by (auto simp: structural_def)
  from ab have alen: "a < length lines" by simp
  show ?case
  proof (cases "index = a")
    case True
    from less.prems(2)[of a] True la have ge: "cur \<le> d" by simp
    from alen la ge show ?thesis
    proof (cases rule: loop_step[where numOf = numOf and obj = obj and arr = arr])
      case (Error e)
      with True show ?thesis by simp
    next
      case (Next index' obj' arr')
      have le: "index' \<le> b"
      proof (rule ccontr)
        assume "\<not> index' \<le> b"
        with Next(3)[of b] ab lb show False by simp
      qed
      have "\<And>i. index' \<le> i \<Longrightarrow> i < b \<Longrightarrow> d \<le> fst (lines ! i)"
        using between Next(2) by simp
      moreover have "fst (lines ! b) = d" using lb by simp
      ultimately have "(\<exists>e. parseLoop numOf lines index' cur obj' arr' = Inl e)
         \<or> (\<exists>obj'' arr''. parseLoop numOf lines index' cur obj' arr'
                = parseLoop numOf lines b cur obj'' arr''
              \<and> (fst obj' \<noteq> [] \<longrightarrow> fst obj'' \<noteq> []) \<and> (arr' \<noteq> None \<longrightarrow> arr'' \<noteq> None))"
        using reach_line[OF ab(2) _ ge le, of numOf obj' arr'] by blast
      then consider e where "parseLoop numOf lines index' cur obj' arr' = Inl e"
        | obj'' arr'' where
          "parseLoop numOf lines index' cur obj' arr' = parseLoop numOf lines b cur obj'' arr''"
          "fst obj' \<noteq> [] \<longrightarrow> fst obj'' \<noteq> []" "arr' \<noteq> None \<longrightarrow> arr'' \<noteq> None"
        by blast
      then show ?thesis
      proof cases
        case 1
        with Next(1) True show ?thesis by simp
      next
        case 2
        from ab(2) lb ge show ?thesis
        proof (cases rule: loop_step[where numOf = numOf and obj = obj'' and arr = arr''])
          case (Error e)
          with 2(1) Next(1) True show ?thesis by simp
        next
          case inner: (Next index'' obj''' arr''')
          from kinds have "fst obj''' \<noteq> [] \<and> arr''' \<noteq> None"
          proof (elim disjE conjE)
            assume k: "startsWith sa ''.''" "lineKey sa \<noteq> ''__proto__''" "startsWith sb ''-''"
            from Next(6)[OF k(1,2)] 2(2) inner(4) inner(7)[OF k(3)] show ?thesis by simp
          next
            assume k: "startsWith sa ''-''" "startsWith sb ''.''" "lineKey sb \<noteq> ''__proto__''"
            from Next(7)[OF k(1)] 2(3) inner(5) inner(6)[OF k(2,3)] show ?thesis by simp
          qed
          then have "\<exists>e. finish (parseLoop numOf lines index'' cur obj''' arr''') = Inl e"
            using mixed_state by blast
          with inner(1) 2(1) Next(1) True show ?thesis by simp
        qed
      qed
    qed
  next
    case False
    with less.prems(1) have lt: "index < a" by simp
    with alen have len: "index < length lines" by simp
    from less.prems(2)[of index] lt have ge: "cur \<le> fst (lines ! index)" by simp
    show ?thesis
    proof (cases rule: parseLoop_step_cases[of index lines cur numOf obj arr])
      case Leave
      with len ge show ?thesis by simp
    next
      case (Invalid indent stripped)
      then show ?thesis by simp
    next
      case (Nested_error indent stripped e)
      then show ?thesis by simp
    next
      case (Key indent stripped index' v reach)
      show ?thesis
      proof (cases "index' \<le> a")
        case True
        have "\<exists>e. finish (parseLoop numOf lines index' cur
            (objSet obj (lineKey stripped) v reach) arr) = Inl e"
        proof (rule less.hyps[OF _ True])
          show "length lines - index' < length lines - index" using Key(5) len by simp
          show "\<And>i. index' \<le> i \<Longrightarrow> i \<le> a \<Longrightarrow> cur \<le> fst (lines ! i)"
            using less.prems(2) Key(5) by simp
        qed
        with Key(6) show ?thesis by simp
      next
        case False
        then have inside: "index + 1 \<le> a" "a < index'" using lt by simp_all
        from Key(7) consider "index' = index + 1"
          | nextIndent multiline where
            "collect lines (index + 1) nextIndent [] = (index', multiline)"
          | "parseBlock numOf lines (index + 1) (indent + 1) = Inr (index', v, reach)"
          by blast
        then show ?thesis
        proof cases
          case 1
          with inside show ?thesis by simp
        next
          case 2
          from collect_consumed[OF 2 inside] la sa show ?thesis by simp
        next
          case 3
          have "\<exists>e. finish (parseLoop numOf lines (index + 1) (indent + 1) ([], True) None) = Inl e"
          proof (rule less.hyps[OF _ inside(1)])
            show "length lines - (index + 1) < length lines - index" using len by simp
            show "\<And>i. index + 1 \<le> i \<Longrightarrow> i \<le> a \<Longrightarrow> indent + 1 \<le> fst (lines ! i)"
              using parseBlock_consumed[OF 3] inside(2) by simp
          qed
          with 3 show ?thesis by (simp add: parseBlock_def)
        qed
      qed
    next
      case (Item indent stripped index' v reach)
      show ?thesis
      proof (cases "index' \<le> a")
        case True
        have "\<exists>e. finish (parseLoop numOf lines index' cur obj (push arr v)) = Inl e"
        proof (rule less.hyps[OF _ True])
          show "length lines - index' < length lines - index" using Item(5) len by simp
          show "\<And>i. index' \<le> i \<Longrightarrow> i \<le> a \<Longrightarrow> cur \<le> fst (lines ! i)"
            using less.prems(2) Item(5) by simp
        qed
        with Item(6) show ?thesis by simp
      next
        case False
        then have inside: "index + 1 \<le> a" "a < index'" using lt by simp_all
        from Item(7) consider "index' = index + 1"
          | "parseBlock numOf lines (index + 1) (indent + 1) = Inr (index', v, reach)"
          by blast
        then show ?thesis
        proof cases
          case 1
          with inside show ?thesis by simp
        next
          case 2
          have "\<exists>e. finish (parseLoop numOf lines (index + 1) (indent + 1) ([], True) None) = Inl e"
          proof (rule less.hyps[OF _ inside(1)])
            show "length lines - (index + 1) < length lines - index" using len by simp
            show "\<And>i. index + 1 \<le> i \<Longrightarrow> i \<le> a \<Longrightarrow> indent + 1 \<le> fst (lines ! i)"
              using parseBlock_consumed[OF 2] inside(2) by simp
          qed
          with 2 show ?thesis by (simp add: parseBlock_def)
        qed
      qed
    qed
  qed
qed

lemma parseBlock_error_shape:
  assumes "parseBlock numOf lines index cur = Inl e"
  shows "e = MixedContainer
       \<or> (\<exists>indent content. e = InvalidLine indent content
            \<and> (indent, content) \<in> set lines \<and> \<not> structural content)"
proof (cases e)
  case MixedContainer
  then show ?thesis by simp
next
  case (InvalidLine indent content)
  with assms have "parseLoop numOf lines index cur ([], True) None = Inl (InvalidLine indent content)"
    unfolding parseBlock_def by (simp add: finish_error)
  from parseLoop_error_line[OF this] InvalidLine show ?thesis by simp
qed

text \<open>
  C6, as the code has it. Take a text with a key line and an item line at the same indent
  and no shallower line between the two, which the decoder gets to (no line before them is
  indented less than the first line of the text), the key not being \<open>__proto__\<close>. The
  two lines may be at the root or in a nested block, in either order, and any line may
  have a value of its own. Decoding the text never returns a value: it throws the
  mixed-container error, or the malformed-line error of a line that starts with neither
  \<open>.\<close> nor \<open>-\<close>, which is thrown as soon as the loop is at such a line while the
  mixed check waits for the end of the block.
\<close>

theorem mixed_block_rejected:
  assumes "tokenizeLines text = lines"
    and "j1 < length lines" and "lines ! j1 = (d, s1)"
    and "startsWith s1 ''.''" and "lineKey s1 \<noteq> ''__proto__''"
    and "j2 < length lines" and "lines ! j2 = (d, s2)" and "startsWith s2 ''-''"
    and "\<forall>i. min j1 j2 < i \<and> i < max j1 j2 \<longrightarrow> d \<le> fst (lines ! i)"
    and "\<forall>i. i \<le> min j1 j2 \<longrightarrow> fst (lines ! 0) \<le> fst (lines ! i)"
  shows "loadsArion numOf text = Inl MixedContainer
       \<or> (\<exists>indent content. loadsArion numOf text = Inl (InvalidLine indent content)
            \<and> (indent, content) \<in> set lines \<and> \<not> structural content)"
proof -
  from assms(4,8) have ne: "j1 \<noteq> j2"
    using assms(3,7) by (cases s1) (auto simp: startsWith_def)
  have "\<exists>e. finish (parseLoop numOf lines 0 (fst (lines ! 0)) ([], True) None) = Inl e"
  proof (cases "j1 < j2")
    case True
    show ?thesis
    proof (rule pair_rejected[OF True assms(6) assms(3) assms(7)])
      show "\<And>i. j1 < i \<Longrightarrow> i < j2 \<Longrightarrow> d \<le> fst (lines ! i)" using assms(9) True by simp
      show "(startsWith s1 ''.'' \<and> lineKey s1 \<noteq> ''__proto__'' \<and> startsWith s2 ''-'')
          \<or> (startsWith s1 ''-'' \<and> startsWith s2 ''.'' \<and> lineKey s2 \<noteq> ''__proto__'')"
        using assms(4,5,8) by (intro disjI1 conjI)
      show "\<And>i. 0 \<le> i \<Longrightarrow> i \<le> j1 \<Longrightarrow> fst (lines ! 0) \<le> fst (lines ! i)"
        using assms(10) True by simp
    qed simp
  next
    case False
    with ne have lt: "j2 < j1" by simp
    show ?thesis
    proof (rule pair_rejected[OF lt assms(2) assms(7) assms(3)])
      show "\<And>i. j2 < i \<Longrightarrow> i < j1 \<Longrightarrow> d \<le> fst (lines ! i)" using assms(9) lt by simp
      show "(startsWith s2 ''.'' \<and> lineKey s2 \<noteq> ''__proto__'' \<and> startsWith s1 ''-'')
          \<or> (startsWith s2 ''-'' \<and> startsWith s1 ''.'' \<and> lineKey s1 \<noteq> ''__proto__'')"
        using assms(4,5,8) by (intro disjI2 conjI)
      show "\<And>i. 0 \<le> i \<Longrightarrow> i \<le> j2 \<Longrightarrow> fst (lines ! 0) \<le> fst (lines ! i)"
        using assms(10) lt by simp
    qed simp
  qed
  then obtain e where e: "parseBlock numOf lines 0 (fst (lines ! 0)) = Inl e"
    by (auto simp: parseBlock_def)
  from assms(2) have len: "length lines \<noteq> 0" by (cases lines) simp_all
  obtain firstIndent firstStripped where f: "lines ! 0 = (firstIndent, firstStripped)"
    by (cases "lines ! 0")
  with e have "parseBlock numOf lines 0 firstIndent = Inl e" by simp
  with len f have l: "loadsArion numOf text = Inl e"
    by (simp add: loadsArion_def assms(1))
  from parseBlock_error_shape[OF e] l show ?thesis by auto
qed

theorem mixed_block_rejected_witness:
  "loadsArion litOf (''.a'' @ [CHR 0x0A] @ ''  .b'' @ [CHR 0x0A] @ ''    .c 1'' @ [CHR 0x0A] @ ''  - 2'')
     = Inl MixedContainer"
proof -
  let ?text = "''.a'' @ [CHR 0x0A] @ ''  .b'' @ [CHR 0x0A] @ ''    .c 1'' @ [CHR 0x0A] @ ''  - 2''"
  let ?lines = "[(0 :: nat, ''.a''), (2, ''.b''), (4, ''.c 1''), (2, ''- 2'')]"
  have t: "tokenizeLines ?text = ?lines" by code_simp
  have between: "\<forall>i. min 1 3 < i \<and> i < max 1 3 \<longrightarrow> 2 \<le> fst (?lines ! i)"
  proof (intro allI impI)
    fix i :: nat
    assume "min 1 3 < i \<and> i < max 1 3"
    then have "i = 2" by simp
    then show "2 \<le> fst (?lines ! i)" by simp
  qed
  have within: "\<forall>i. i \<le> min 1 3 \<longrightarrow> fst (?lines ! 0) \<le> fst (?lines ! i)" by simp
  have key: "lineKey ''.b'' \<noteq> ''__proto__''" by (simp add: lineKey_def)
  have "loadsArion litOf ?text = Inl MixedContainer
      \<or> (\<exists>indent content. loadsArion litOf ?text = Inl (InvalidLine indent content)
            \<and> (indent, content) \<in> set ?lines \<and> \<not> structural content)"
    by (rule mixed_block_rejected[where ?j1.0 = 1 and ?j2.0 = 3 and d = 2
          and ?s1.0 = "''.b''" and ?s2.0 = "''- 2''", OF t _ _ _ key _ _ _ between within])
       (simp_all add: startsWith_def)
  moreover have "structural c" if "(i, c) \<in> set ?lines" for i c
    using that by (auto simp: structural_def startsWith_def)
  ultimately show ?thesis by blast
qed

text \<open>
  The check for a mixed block runs when the loop of the block has ended, so a malformed
  line further down the same block raises its own error first.
\<close>

theorem mixed_block_counterexample:
  "loadsArion litOf (''.a 1'' @ [CHR 0x0A] @ ''- 2'' @ [CHR 0x0A] @ ''foo'')
     = Inl (InvalidLine 0 ''foo'')"
  by code_simp

text \<open>
  The key \<open>__proto__\<close> leaves the object without an own key while the inherited setter
  is in reach, so a block of such a key line and item lines returns its array.
\<close>

lemma proto_key_block:
  "loadsArion litOf (''.__proto__ x'' @ [CHR 0x0A] @ ''- 1'') = Inr (Array [Number ''1''])"
  by code_simp

section \<open>Key order\<close>

text \<open>The entry lists of all Objects of a value, the value itself included.\<close>

fun objectsOf :: "'n Value \<Rightarrow> (string \<times> 'n Value) list list"
  and objectsOfItems :: "'n Value list \<Rightarrow> (string \<times> 'n Value) list list"
  and objectsOfEntries :: "(string \<times> 'n Value) list \<Rightarrow> (string \<times> 'n Value) list list"
where
  "objectsOf (Object entries) = entries # objectsOfEntries entries"
| "objectsOf (Array items) = objectsOfItems items"
| "objectsOf Null = []"
| "objectsOf (Boolean b) = []"
| "objectsOf (Number n) = []"
| "objectsOf (String s) = []"
| "objectsOfItems [] = []"
| "objectsOfItems (item # rest) = objectsOf item @ objectsOfItems rest"
| "objectsOfEntries [] = []"
| "objectsOfEntries ((k, val) # rest) = objectsOf val @ objectsOfEntries rest"











subsection \<open>An assignment keeps the order of the keys\<close>







subsection \<open>Every Object a block builds has its keys declared in order\<close>


lemma objectsOfItems_append:
  "objectsOfItems (xs @ ys) = objectsOfItems xs @ objectsOfItems ys"
  by (induction xs) simp_all












subsection \<open>From the lines the parser sees to the lines of the text\<close>




subsection \<open>The key lines the encoder writes\<close>













end
